theory Spec2Isabelle
  imports Main "HOL-Library.Log_Nat"
begin

section \<open>Side-by-side video comparison script\<close>

text \<open>
  A shallow embedding of \<^verbatim>\<open>abhi.py\<close> (the script calls itself SideBySide.py): a linear
  Python script that interprets a few command line shortcuts, queries the display and the
  first video for their sizes, computes the geometry of two player windows, starts two
  \<^verbatim>\<open>ffplay\<close> processes through AutoIt and polls the window manager until both
  windows are gone.

  The file in the repository carries a uniform indentation of four spaces on every line
  but the first; the embedding follows the script with that indentation removed.

  Conventions of the embedding:
  \<^item> a Python \<^verbatim>\<open>str\<close> is a \<^typ>\<open>string\<close>, so a character is a code point below 256;
  \<^item> a Python \<^verbatim>\<open>int\<close> is an \<^typ>\<open>int\<close>; a finite Python \<^verbatim>\<open>float\<close> is the
    \<^typ>\<open>rat\<close> it denotes, with the rounding of every operation written out;
  \<^item> an uncaught exception is a value of \<open>py_error\<close>; \<^verbatim>\<open>sys.exit()\<close> without an
    argument ends the run with exit status 0;
  \<^item> everything the script asks of its surroundings (the file system, the display, the
    output of \<^verbatim>\<open>ffprobe\<close>, the window manager) is a field of the record \<open>env\<close>;
  \<^item> what the script does to its surroundings is recorded as a list of events.
\<close>

subsection \<open>Strings\<close>

definition nl :: char where
  "nl = CHR 0x0A"

text \<open>\<^verbatim>\<open>str.lower\<close> on code points below 256: the ASCII capitals and the capitals of
  Latin-1 (\<open>0xC0\<close> to \<open>0xDE\<close> without the multiplication sign \<open>0xD7\<close>) move up by 32.\<close>

definition upper_chars :: string where
  "upper_chars = ''ABCDEFGHIJKLMNOPQRSTUVWXYZ'' @
     [CHR 0xC0, CHR 0xC1, CHR 0xC2, CHR 0xC3, CHR 0xC4, CHR 0xC5, CHR 0xC6, CHR 0xC7,
      CHR 0xC8, CHR 0xC9, CHR 0xCA, CHR 0xCB, CHR 0xCC, CHR 0xCD, CHR 0xCE, CHR 0xCF,
      CHR 0xD0, CHR 0xD1, CHR 0xD2, CHR 0xD3, CHR 0xD4, CHR 0xD5, CHR 0xD6,
      CHR 0xD8, CHR 0xD9, CHR 0xDA, CHR 0xDB, CHR 0xDC, CHR 0xDD, CHR 0xDE]"

definition lower_chars :: string where
  "lower_chars = ''abcdefghijklmnopqrstuvwxyz'' @
     [CHR 0xE0, CHR 0xE1, CHR 0xE2, CHR 0xE3, CHR 0xE4, CHR 0xE5, CHR 0xE6, CHR 0xE7,
      CHR 0xE8, CHR 0xE9, CHR 0xEA, CHR 0xEB, CHR 0xEC, CHR 0xED, CHR 0xEE, CHR 0xEF,
      CHR 0xF0, CHR 0xF1, CHR 0xF2, CHR 0xF3, CHR 0xF4, CHR 0xF5, CHR 0xF6,
      CHR 0xF8, CHR 0xF9, CHR 0xFA, CHR 0xFB, CHR 0xFC, CHR 0xFD, CHR 0xFE]"

definition lower_char :: "char \<Rightarrow> char" where
  "lower_char c = (case map_of (zip upper_chars lower_chars) c of Some d \<Rightarrow> d | None \<Rightarrow> c)"

definition lower :: "string \<Rightarrow> string" where
  "lower s = map lower_char s"

text \<open>\<^verbatim>\<open>s.strip(c)\<close> for a one-character argument: every leading and every trailing
  occurrence of the character goes.\<close>

definition strip_char :: "char \<Rightarrow> string \<Rightarrow> string" where
  "strip_char c s = rev (dropWhile (\<lambda>d. d = c) (rev (dropWhile (\<lambda>d. d = c) s)))"

text \<open>\<^verbatim>\<open>sep.join(xs)\<close>.\<close>

fun join :: "string \<Rightarrow> string list \<Rightarrow> string" where
  "join sep [] = []"
| "join sep [x] = x"
| "join sep (x # y # ys) = x @ sep @ join sep (y # ys)"

subsection \<open>The argument interpreter\<close>

text \<open>The text printed when fewer than two arguments follow the script name.\<close>

definition usage_text :: string where
  \<open>usage_text = join [nl]
    ['''',
     ''SideBySide video1 video2'',
     '''',
     ''    Displays two videos side by side for comparison. This is useful to see'',
     ''    before and after video effects such as colour/contrast manipulation or'',
     ''    scaling.'',
     '''',
     ''    If you want to try some ffmpeg filters before applying them to a complete'',
     ''    video you can supply ffmpeg parameters ad hoc. To use the same video for'',
     ''    both panels specify '-same' as the second video. For example, to see the'',
     ''    effect of a gamma correction you can type:'',
     '''',
     ''        sidebyside video.mp4 -same -vf eq=gamma=0.9'',
     '''',
     ''    To save you the trouble of remembering ffmpeg filters several shortcuts'',
     ''    are provided as follows:'',
     '''',
     ''        sidebyside video.mp4 -same -gamma 0.9        apply gamma correction'',
     ''        sidebyside video.mp4 -same -contrast .12     apply contrast correction'',
     ''        sidebyside video.mp4 -same -grey             convert to greyscale'',
     ''        sidebyside video.mp4 -same -sepia            convert to sepia'',
     '''']\<close>

definition grey_filter :: string where
  "grey_filter = ''-vf colorchannelmixer=.3:.4:.3:0:.3:.4:.3:0:.3:.4:.3''"

definition sepia_filter :: string where
  "sepia_filter =
     ''-vf colorchannelmixer=.393:.769:.189:0:.349:.686:.168:0:.272:.534:.131''"

text \<open>The value of \<^verbatim>\<open>args\<close> after the shortcut interpretation; \<open>argv\<close> is
  \<^verbatim>\<open>sys.argv\<close>, the script name first.\<close>

definition interpret_args :: "string list \<Rightarrow> string" where
  "interpret_args argv =
     (if length argv > 3 then
        (if lower (argv ! 3) = ''-grey'' then grey_filter
         else if lower (argv ! 3) = ''-sepia'' then sepia_filter
         else if lower (argv ! 3) = ''-contrast'' \<and> length argv > 4 then
           (let cval = strip_char CHR ''0'' (argv ! 4)
            in ''-vf colorlevels=rimin='' @ cval @ '':gimin='' @ cval @ '':bimin='' @ cval)
         else if lower (argv ! 3) = ''-gamma'' \<and> length argv > 4 then
           (let gval = strip_char CHR ''0'' (argv ! 4)
            in ''-vf eq=gamma='' @ gval)
         else join '' '' (drop 3 argv))
      else [])"

subsection \<open>More string operations\<close>

text \<open>\<^verbatim>\<open>s.split(sep)\<close> for a one-character separator: never empty, one more piece than
  there are separators.\<close>

fun split_on :: "char \<Rightarrow> string \<Rightarrow> string list" where
  "split_on sep [] = [[]]"
| "split_on sep (c # cs) =
     (if c = sep then [] # split_on sep cs
      else (case split_on sep cs of [] \<Rightarrow> [[c]] | w # ws \<Rightarrow> (c # w) # ws))"

text \<open>\<^verbatim>\<open>pat in s\<close> on strings.\<close>

fun contains :: "string \<Rightarrow> string \<Rightarrow> bool" where
  "contains pat [] = (pat = [])"
| "contains pat (c # cs) = (take (length pat) (c # cs) = pat \<or> contains pat cs)"

text \<open>\<^verbatim>\<open>s[i:j]\<close> for indices that are not negative.\<close>

definition slice :: "nat \<Rightarrow> nat \<Rightarrow> string \<Rightarrow> string" where
  "slice i j s = take (j - i) (drop i s)"

definition is_digit :: "char \<Rightarrow> bool" where
  "is_digit c = (c \<in> set ''0123456789'')"

definition digit_val :: "char \<Rightarrow> nat" where
  "digit_val c =
     (case map_of (zip ''0123456789'' [0, 1, 2, 3, 4, 5, 6, 7, 8, 9]) c of
        Some d \<Rightarrow> d
      | None \<Rightarrow> 0)"

definition digit_char :: "nat \<Rightarrow> char" where
  "digit_char d = ''0123456789'' ! d"

text \<open>\<^verbatim>\<open>str(n)\<close> for an integer.\<close>

fun str_nat :: "nat \<Rightarrow> string" where
  "str_nat n = (if n < 10 then [digit_char n] else str_nat (n div 10) @ [digit_char (n mod 10)])"

declare str_nat.simps [simp del]

definition str_int :: "int \<Rightarrow> string" where
  "str_int i = (if i < 0 then CHR ''-'' # str_nat (nat (- i)) else str_nat (nat i))"

subsection \<open>Exceptions\<close>

datatype py_error = ZeroDivisionError | OverflowError | ValueError

text \<open>\<^verbatim>\<open>int(s)\<close> on the strings the script passes to it, which are runs of decimal
  digits (lemma \<open>scan_lines_no_ValueError\<close> below); signs, blanks and underscores, which
  Python's \<^verbatim>\<open>int\<close> would also read, are not modelled and count as malformed.\<close>

definition py_int :: "string \<Rightarrow> py_error + int" where
  "py_int s =
     (if s \<noteq> [] \<and> list_all is_digit s
      then Inr (int (foldl (\<lambda>a c. 10 * a + digit_val c) 0 s))
      else Inl ValueError)"

subsection \<open>Floating point\<close>

text \<open>
  A finite \<^verbatim>\<open>float\<close> is an IEEE 754 binary64 number: a rational \<open>m * 2 ^ e\<close> with
  \<open>\<bar>m\<bar> < 2 ^ 53\<close> and \<open>- 1074 \<le> e\<close>, below \<open>2 ^ 1024\<close> in magnitude. Python rounds the exact
  result of a division, and of the conversion of an integer, to the nearest such number,
  ties to the even significand. The sign of a zero and of an infinity is not kept: the
  script only divides by a float or truncates it to an integer, and neither depends on it.
\<close>

text \<open>The exponent of the leading bit of a rational that is not zero.\<close>

definition ilog2 :: "rat \<Rightarrow> int" where
  "ilog2 x =
     (let (p, q) = quotient_of x; d = bitlen \<bar>p\<bar> - bitlen q
      in if 2 powi d \<le> \<bar>x\<bar> then d else d - 1)"

definition round_half_even :: "rat \<Rightarrow> int" where
  "round_half_even x =
     (let f = \<lfloor>x\<rfloor>; r = x - of_int f
      in if r < 1 / 2 then f else if 1 / 2 < r then f + 1 else if even f then f else f + 1)"

datatype pyfloat = Finite rat | Infinity

definition round_double :: "rat \<Rightarrow> pyfloat" where
  "round_double x =
     (if x = 0 then Finite 0
      else let e = max (ilog2 x - 52) (- 1074);
               y = of_int (round_half_even (x / 2 powi e)) * 2 powi e
           in if 2 ^ 1024 \<le> \<bar>y\<bar> then Infinity else Finite y)"

text \<open>\<^verbatim>\<open>a / b\<close> on two integers: the correctly rounded quotient, or an exception.\<close>

definition int_truediv :: "int \<Rightarrow> int \<Rightarrow> py_error + rat" where
  "int_truediv a b =
     (if b = 0 then Inl ZeroDivisionError
      else (case round_double (of_int a / of_int b) of
              Infinity \<Rightarrow> Inl OverflowError
            | Finite f \<Rightarrow> Inr f))"

text \<open>The conversion of an integer operand to \<^verbatim>\<open>float\<close>.\<close>

definition float_of_int :: "int \<Rightarrow> py_error + rat" where
  "float_of_int n =
     (case round_double (of_int n) of
        Infinity \<Rightarrow> Inl OverflowError
      | Finite f \<Rightarrow> Inr f)"

text \<open>\<^verbatim>\<open>x / y\<close> on two finite floats: division by zero raises, overflow gives infinity.\<close>

definition float_truediv :: "rat \<Rightarrow> rat \<Rightarrow> py_error + pyfloat" where
  "float_truediv x y = (if y = 0 then Inl ZeroDivisionError else Inr (round_double (x / y)))"

text \<open>\<^verbatim>\<open>int(x)\<close> on a float: truncation towards zero.\<close>

definition trunc :: "rat \<Rightarrow> int" where
  "trunc x = (if 0 \<le> x then \<lfloor>x\<rfloor> else \<lceil>x\<rceil>)"

definition int_of_float :: "pyfloat \<Rightarrow> py_error + int" where
  "int_of_float x = (case x of Infinity \<Rightarrow> Inl OverflowError | Finite f \<Rightarrow> Inr (trunc f))"

subsection \<open>The surroundings of a run\<close>

text \<open>
  \<^item> \<open>isfile\<close>: \<^verbatim>\<open>os.path.isfile\<close>;
  \<^item> \<open>display_size\<close>: what \<^verbatim>\<open>DisplaySize()\<close> returns;
  \<^item> \<open>ffprobe_stderr\<close>: the diagnostic text \<^verbatim>\<open>ffprobe -i file\<close> writes;
  \<^item> \<open>aut_run\<close>: the result of \<^verbatim>\<open>aut.Run(cmd)\<close>, 0 when the process did not start;
  \<^item> \<open>win_active title k\<close>: the answer of the \<open>k\<close>-th call of \<^verbatim>\<open>aut.WinActive(title)\<close>
    within one call of \<^verbatim>\<open>WaitFor\<close>, counted from 0;
  \<^item> \<open>win_handle\<close>: \<^verbatim>\<open>aut.WinGetHandle\<close>;
  \<^item> \<open>win_exists handle k\<close>: the answer of \<^verbatim>\<open>aut.WinExists(handle)\<close> in round \<open>k\<close> of the
    final loop;
  \<^item> \<open>interrupted k\<close>: an exception (CTRL-C) reaches the script in round \<open>k\<close> of the final
    loop.

  The calls that only set things up (\<^verbatim>\<open>tkinter.Tk\<close>, \<^verbatim>\<open>subprocess.run\<close>, the
  creation of the AutoIt object and its \<^verbatim>\<open>Opt\<close>) are taken to return; what they return
  is in the fields above.
\<close>

record env =
  isfile :: "string \<Rightarrow> bool"
  display_size :: "int \<times> int"
  ffprobe_stderr :: "string \<Rightarrow> string"
  aut_run :: "string \<Rightarrow> int"
  win_active :: "string \<Rightarrow> nat \<Rightarrow> bool"
  win_handle :: "string \<Rightarrow> string"
  win_exists :: "string \<Rightarrow> nat \<Rightarrow> bool"
  interrupted :: "nat \<Rightarrow> bool"

text \<open>What a run does, in order: text printed, \<^verbatim>\<open>ffprobe\<close> run on a file, a command
  handed to \<^verbatim>\<open>aut.Run\<close>, a sleep in milliseconds, a window manager query.\<close>

datatype event =
    Print string
  | Ffprobe string
  | Spawn string
  | Sleep nat
  | WinActive string
  | WinExists string

text \<open>How a run ends: with an exit status, or with an uncaught exception.\<close>

datatype final = Exited int | Raised py_error

type_synonym outcome = "event list \<times> final"

subsection \<open>VideoSize\<close>

text \<open>
  \<^verbatim>\<open>re.search(' \d+x\d+ ', line)\<close>. At a given position the pattern can match in one way
  only: a blank, the longest run of digits there (a shorter run would be followed by a
  digit, not by \<open>x\<close>), an \<open>x\<close>, the longest run of digits again, a blank.
  \<open>match_at\<close> returns the length of the match at the head of the string, \<open>re_search\<close> the
  start and the end of the leftmost match. Below 256 the code points \<^verbatim>\<open>\d\<close> matches
  are the ASCII digits.
\<close>

definition match_at :: "string \<Rightarrow> nat option" where
  "match_at s =
     (case s of
        [] \<Rightarrow> None
      | c # r \<Rightarrow>
          if c \<noteq> CHR '' '' \<or> takeWhile is_digit r = [] then None
          else (case dropWhile is_digit r of
                  [] \<Rightarrow> None
                | d # r2 \<Rightarrow>
                    if d \<noteq> CHR ''x'' \<or> takeWhile is_digit r2 = [] then None
                    else (case dropWhile is_digit r2 of
                            [] \<Rightarrow> None
                          | b # r3 \<Rightarrow>
                              if b \<noteq> CHR '' '' then None
                              else Some (length (takeWhile is_digit r)
                                         + length (takeWhile is_digit r2) + 3))))"

fun search_from :: "nat \<Rightarrow> string \<Rightarrow> (nat \<times> nat) option" where
  "search_from i [] = None"
| "search_from i (c # cs) =
     (case match_at (c # cs) of
        Some n \<Rightarrow> Some (i, i + n)
      | None \<Rightarrow> search_from (Suc i) cs)"

definition re_search :: "string \<Rightarrow> (nat \<times> nat) option" where
  "re_search line = search_from 0 line"

text \<open>The loop over the lines of the diagnostic text, and the fall-through result.\<close>

fun scan_lines :: "string list \<Rightarrow> py_error + int \<times> int" where
  "scan_lines [] = Inr (0, 0)"
| "scan_lines (line # rest) =
     (if contains ''Video:'' line then
        (case re_search line of
           Some (start, end) \<Rightarrow>
             (case split_on CHR ''x'' (slice (1 + start) (end - 1) line) of
                [w, h] \<Rightarrow>
                  (case py_int w of
                     Inl e \<Rightarrow> Inl e
                   | Inr wi \<Rightarrow> (case py_int h of Inl e \<Rightarrow> Inl e | Inr hi \<Rightarrow> Inr (wi, hi)))
              | _ \<Rightarrow> Inl ValueError)
         | None \<Rightarrow> scan_lines rest)
      else scan_lines rest)"

definition VideoSize :: "env \<Rightarrow> string \<Rightarrow> py_error + int \<times> int" where
  "VideoSize env file = scan_lines (split_on nl (ffprobe_stderr env file))"

subsection \<open>WaitFor\<close>

datatype wait_result = Active | Expired

text \<open>
  The loop of \<^verbatim>\<open>WaitFor\<close>, with the counter \<open>timeout\<close>, the number \<open>k\<close> of queries made
  so far and the events so far. \<open>Expired\<close> stands for the \<^verbatim>\<open>sys.exit()\<close> in the loop.
  With a counter that starts at 0 or below the loop has no bound, so the function is
  partial.
\<close>

partial_function (option) WaitFor_loop ::
  "env \<Rightarrow> string \<Rightarrow> int \<Rightarrow> nat \<Rightarrow> event list \<Rightarrow> (event list \<times> wait_result) option" where
  "WaitFor_loop env title timeout k evs =
     (if win_active env title k then Some (evs @ [WinActive title], Active)
      else if timeout - 1 = 0
        then Some (evs @ [WinActive title, Sleep 100, Print ''expired''], Expired)
      else WaitFor_loop env title (timeout - 1) (Suc k) (evs @ [WinActive title, Sleep 100]))"

declare WaitFor_loop.simps [code]

definition WaitFor :: "env \<Rightarrow> string \<Rightarrow> int \<Rightarrow> (event list \<times> wait_result) option" where
  "WaitFor env title timeout = WaitFor_loop env title (timeout * 10) 0 []"

subsection \<open>The geometry of the two windows\<close>

text \<open>
  From the display width \<open>dw\<close> and the frame size \<open>(vw, vh)\<close> of the first video: the
  width and the height of both windows and the coordinates, as text, of the left and the
  right window. The steps and their order are those of the script:
  \<^verbatim>\<open>aspect = vw / vh\<close>, \<^verbatim>\<open>vw = int((dw-20) / 2)\<close>, \<^verbatim>\<open>vh = int(vw / aspect)\<close>,
  \<^verbatim>\<open>x2 = str(int((dw/2)) + 5)\<close>.
\<close>

record geometry =
  width :: int
  height :: int
  x1 :: string
  y1 :: string
  x2 :: string
  y2 :: string

definition compute_geometry :: "int \<Rightarrow> int \<Rightarrow> int \<Rightarrow> py_error + geometry" where
  "compute_geometry dw vw vh =
     (case int_truediv vw vh of
        Inl e \<Rightarrow> Inl e
      | Inr aspect \<Rightarrow>
     (case int_truediv (dw - 20) 2 of
        Inl e \<Rightarrow> Inl e
      | Inr half_width \<Rightarrow>
     (let vw' = trunc half_width in
     (case float_of_int vw' of
        Inl e \<Rightarrow> Inl e
      | Inr fw \<Rightarrow>
     (case float_truediv fw aspect of
        Inl e \<Rightarrow> Inl e
      | Inr quot \<Rightarrow>
     (case int_of_float quot of
        Inl e \<Rightarrow> Inl e
      | Inr vh' \<Rightarrow>
     (case int_truediv dw 2 of
        Inl e \<Rightarrow> Inl e
      | Inr half_display \<Rightarrow>
          Inr \<lparr>width = vw', height = vh', x1 = ''10'', y1 = ''35'',
               x2 = str_int (trunc half_display + 5), y2 = ''35''\<rparr>)))))))"

subsection \<open>The two command lines\<close>

record launch_spec =
  title1 :: string
  title2 :: string
  cmd1 :: string
  cmd2 :: string

text \<open>The tail both command lines end with: the size and the position of the window.\<close>

definition size_and_position :: "int \<Rightarrow> int \<Rightarrow> string \<Rightarrow> string \<Rightarrow> string" where
  "size_and_position w h x y =
     '' -x '' @ str_int w @ '' -y '' @ str_int h @ '' -left '' @ x @ '' -top '' @ y"

definition make_cmd1 :: "string \<Rightarrow> string \<Rightarrow> geometry \<Rightarrow> string" where
  \<open>make_cmd1 title video g =
     ''ffplay -v 0 -window_title "'' @ title @ ''" -i "'' @ video @ ''"''
     @ size_and_position (width g) (height g) (x1 g) (y1 g)\<close>

definition make_cmd2 :: "string \<Rightarrow> string \<Rightarrow> string \<Rightarrow> geometry \<Rightarrow> string" where
  \<open>make_cmd2 title video args g =
     ''ffplay -v 0 -window_title "'' @ title @ ''" -i "'' @ video @ ''" '' @ args
     @ size_and_position (width g) (height g) (x2 g) (y2 g)\<close>

subsection \<open>The script up to the command lines\<close>

text \<open>
  Either the run is over (usage, a missing file, an exception in the size computations),
  or the two command lines are ready. \<^verbatim>\<open>ffprobe\<close> has run by then.
\<close>

definition video1_of :: "string list \<Rightarrow> string" where
  "video1_of argv = argv ! 1"

definition video2_of :: "string list \<Rightarrow> string" where
  "video2_of argv = (if argv ! 2 = ''-same'' then video1_of argv else argv ! 2)"

definition prepare :: "env \<Rightarrow> string list \<Rightarrow> outcome + event list \<times> launch_spec" where
  "prepare env argv =
     (if length argv < 3 then Inl ([Print usage_text], Exited 0)
      else
        let video1 = video1_of argv;
            video2 = video2_of argv;
            args = interpret_args argv
        in
        if \<not> isfile env video1 then Inl ([Print (''Could not find: '' @ video1)], Exited 0)
        else if \<not> isfile env video2 then Inl ([Print (''Could not find: '' @ video2)], Exited 0)
        else
          let t1 = ''1: '' @ video1;
              t2 = ''2: '' @ video2;
              dw = fst (display_size env)
          in
          (case VideoSize env video1 of
             Inl e \<Rightarrow> Inl ([Ffprobe video1], Raised e)
           | Inr (vw, vh) \<Rightarrow>
               (case compute_geometry dw vw vh of
                  Inl e \<Rightarrow> Inl ([Ffprobe video1], Raised e)
                | Inr g \<Rightarrow>
                    Inr ([Ffprobe video1],
                         \<lparr>title1 = t1, title2 = t2,
                          cmd1 = make_cmd1 t1 video1 g,
                          cmd2 = make_cmd2 t2 video2 args g\<rparr>))))"

subsection \<open>Launching, waiting and the final loop\<close>

text \<open>
  The final loop, in a \<^verbatim>\<open>try\<close> whose bare \<^verbatim>\<open>except\<close> ends it quietly. It runs for as
  long as one of the windows exists, so the function is partial. The second window is only
  asked for when the first is gone.
\<close>

partial_function (option) lifecycle ::
  "env \<Rightarrow> string \<Rightarrow> string \<Rightarrow> nat \<Rightarrow> event list \<Rightarrow> event list option" where
  "lifecycle env h1 h2 k evs =
     (if interrupted env k then Some evs
      else if win_exists env h1 k
        then lifecycle env h1 h2 (Suc k) (evs @ [WinExists h1, Sleep 1000])
      else if win_exists env h2 k
        then lifecycle env h1 h2 (Suc k) (evs @ [WinExists h1, WinExists h2, Sleep 1000])
      else Some (evs @ [WinExists h1, WinExists h2]))"

declare lifecycle.simps [code]

definition make_handle :: "string \<Rightarrow> string" where
  "make_handle h = ''[HANDLE:'' @ h @ '']''"

definition launch :: "env \<Rightarrow> launch_spec \<Rightarrow> outcome option" where
  "launch env s =
     (let evs1 = [Print (nl # cmd1 s), Spawn (cmd1 s)] in
      if aut_run env (cmd1 s) = 0
        then Some (evs1 @ [Print ''Could not start ffplay.exe''], Exited 0)
      else
        (case WaitFor env (title1 s) 5 of
           None \<Rightarrow> None
         | Some (w1, Expired) \<Rightarrow> Some (evs1 @ w1, Exited 0)
         | Some (w1, Active) \<Rightarrow>
             let handle1 = make_handle (win_handle env (title1 s));
                 evs2 = evs1 @ w1 @ [Print (nl # cmd2 s), Spawn (cmd2 s)]
             in
             if aut_run env (cmd2 s) = 0
               then Some (evs2 @ [Print ''Could not start ffplay.exe''], Exited 0)
             else
               (case WaitFor env (title2 s) 5 of
                  None \<Rightarrow> None
                | Some (w2, Expired) \<Rightarrow> Some (evs2 @ w2, Exited 0)
                | Some (w2, Active) \<Rightarrow>
                    let handle2 = make_handle (win_handle env (title2 s)) in
                    (case lifecycle env handle1 handle2 0 [] of
                       None \<Rightarrow> None
                     | Some l \<Rightarrow> Some (evs2 @ w2 @ l, Exited 0)))))"

text \<open>A whole run: \<open>None\<close> when it never ends.\<close>

definition main :: "env \<Rightarrow> string list \<Rightarrow> outcome option" where
  "main env argv =
     (case prepare env argv of
        Inl r \<Rightarrow> Some r
      | Inr (evs, s) \<Rightarrow>
          (case launch env s of
             None \<Rightarrow> None
           | Some (evs', f) \<Rightarrow> Some (evs @ evs', f)))"

subsection \<open>A sample run\<close>

text \<open>
  Surroundings in which the only file is \<^verbatim>\<open>video1.mp4\<close>, on a display of 1920 by 1080,
  with a diagnostic text as \<^verbatim>\<open>ffprobe\<close> writes it for a 1280 by 720 video. Each window
  becomes active at the fourth query and both are closed in the third round of the final
  loop.
\<close>

definition demo_env :: env where
  "demo_env =
     \<lparr>isfile = (\<lambda>f. f = ''video1.mp4''),
      display_size = (1920, 1080),
      ffprobe_stderr = (\<lambda>f. ''Input #0, mov, from video1.mp4:'' @ [nl]
         @ ''  Stream #0:0: Video: h264, yuv420p, 1280x720 [SAR 1:1 DAR 16:9], 25 fps''),
      aut_run = (\<lambda>c. 4242),
      win_active = (\<lambda>t k. 3 \<le> k),
      win_handle = (\<lambda>t. ''0x00A1''),
      win_exists = (\<lambda>h k. k < 2),
      interrupted = (\<lambda>k. False)\<rparr>"

definition demo_argv :: "string list" where
  "demo_argv = [''abhi.py'', ''video1.mp4'', ''-same'', ''-gamma'', ''0.90'']"

subsection \<open>Notions the properties are stated with\<close>

text \<open>The events of \<open>n\<close> rounds of \<^verbatim>\<open>WaitFor\<close> in which the window was not active.\<close>

definition polls :: "string \<Rightarrow> nat \<Rightarrow> event list" where
  "polls title n = concat (replicate n [WinActive title, Sleep 100])"

text \<open>
  A line of the diagnostic text carries the marker \<^verbatim>\<open>Video:\<close>; a line holds a frame size
  token: a run of digits, an \<open>x\<close> and a run of digits, with a blank before and after.
\<close>

definition has_video_marker :: "string \<Rightarrow> bool" where
  "has_video_marker line = (\<exists>a b. line = a @ ''Video:'' @ b)"

definition has_size_token :: "string \<Rightarrow> bool" where
  "has_size_token line =
     (\<exists>a w h b. line = a @ '' '' @ w @ ''x'' @ h @ '' '' @ b
        \<and> w \<noteq> [] \<and> h \<noteq> [] \<and> list_all is_digit w \<and> list_all is_digit h)"

text \<open>The height the exact quotient would give: the floor of \<open>w / (vw / vh)\<close>.\<close>

definition exact_height :: "int \<Rightarrow> int \<Rightarrow> int \<Rightarrow> int" where
  "exact_height w vw vh = \<lfloor>(of_int w :: rat) / (of_int vw / of_int vh)\<rfloor>"

section \<open>Properties\<close>

subsection \<open>The argument interpreter\<close>

lemmas lower_eval = lower_def lower_char_def upper_chars_def lower_chars_def

lemma interpret_args_no_flags: "interpret_args [prog, v1, v2] = []"
  by (simp add: interpret_args_def)

lemma interpret_args_gamma:
  "interpret_args (prog # v1 # v2 # ''-gamma'' # v # rest)
     = ''-vf eq=gamma='' @ strip_char CHR ''0'' v"
  by (simp add: interpret_args_def lower_eval)

lemma interpret_args_contrast:
  "interpret_args (prog # v1 # v2 # ''-contrast'' # v # rest)
     = ''-vf colorlevels=rimin='' @ strip_char CHR ''0'' v
       @ '':gimin='' @ strip_char CHR ''0'' v @ '':bimin='' @ strip_char CHR ''0'' v"
  by (simp add: interpret_args_def lower_eval Let_def)

text \<open>
  C1, as the script has it. For the arguments \<^verbatim>\<open>video1.mp4 -same -gamma 0.90\<close> the
  filter arguments are \<^verbatim>\<open>-vf eq=gamma=.9\<close>: \<^verbatim>\<open>strip('0')\<close> takes the zero in front of
  the point as well as the one at the end.
\<close>

theorem gamma_scenario_strips_both_ends:
  "interpret_args [''abhi.py'', ''video1.mp4'', ''-same'', ''-gamma'', ''0.90'']
     = ''-vf eq=gamma=.9''"
  by (simp add: interpret_args_gamma strip_char_def)

text \<open>
  C1, as the claim states it: the filter arguments would be \<^verbatim>\<open>-vf eq=gamma=0.9\<close>, the
  leading digit kept. They are not.
\<close>

theorem gamma_scenario_leading_zero_counterexample:
  "interpret_args [''abhi.py'', ''video1.mp4'', ''-same'', ''-gamma'', ''0.90'']
     \<noteq> ''-vf eq=gamma=0.9''"
  by (simp add: interpret_args_gamma strip_char_def)

text \<open>
  C6. When the first argument after the two videos is \<^verbatim>\<open>-grey\<close> or \<^verbatim>\<open>-sepia\<close>, the
  filter arguments are the fixed colour channel mixer expression for it, whatever
  arguments follow.
\<close>

theorem grey_sepia_fixed_filter:
  "interpret_args (prog # video1 # video2 # ''-grey'' # rest)
     = ''-vf colorchannelmixer=.3:.4:.3:0:.3:.4:.3:0:.3:.4:.3''
   \<and> interpret_args (prog # video1 # video2 # ''-sepia'' # rest)
     = ''-vf colorchannelmixer=.393:.769:.189:0:.349:.686:.168:0:.272:.534:.131''"
  by (simp add: interpret_args_def lower_eval grey_filter_def sepia_filter_def)

theorem grey_sepia_fixed_filter_witness:
  "interpret_args [''abhi.py'', ''a.mp4'', ''b.mp4'', ''-grey'', ''-gamma'', ''1.5'']
     = ''-vf colorchannelmixer=.3:.4:.3:0:.3:.4:.3:0:.3:.4:.3''
   \<and> interpret_args [''abhi.py'', ''a.mp4'', ''-same'', ''-sepia'', ''-an'']
     = ''-vf colorchannelmixer=.393:.769:.189:0:.349:.686:.168:0:.272:.534:.131''"
  using grey_sepia_fixed_filter [of "''abhi.py''" "''a.mp4''" "''b.mp4''" "[''-gamma'', ''1.5'']"]
    grey_sepia_fixed_filter [of "''abhi.py''" "''a.mp4''" "''-same''" "[''-an'']"]
  by simp

text \<open>
  C10. When \<^verbatim>\<open>-contrast\<close> or \<^verbatim>\<open>-gamma\<close> (in any mix of upper and lower case) is the
  last argument, with no value after it, the filter arguments are the arguments after the
  two videos joined by blanks, which is the flag itself.
\<close>

theorem shortcut_without_value_is_verbatim:
  assumes "lower flag = ''-contrast'' \<or> lower flag = ''-gamma''"
  shows "interpret_args [prog, video1, video2, flag]
           = join '' '' (drop 3 [prog, video1, video2, flag])
         \<and> interpret_args [prog, video1, video2, flag] = flag"
  using assms by (auto simp add: interpret_args_def)

theorem shortcut_without_value_is_verbatim_witness:
  "interpret_args [''abhi.py'', ''a.mp4'', ''-same'', ''-gamma''] = ''-gamma''
   \<and> interpret_args [''abhi.py'', ''a.mp4'', ''-same'', ''-Contrast''] = ''-Contrast''"
  using shortcut_without_value_is_verbatim [of "''-gamma''" "''abhi.py''" "''a.mp4''" "''-same''"]
    shortcut_without_value_is_verbatim [of "''-Contrast''" "''abhi.py''" "''a.mp4''" "''-same''"]
  by (simp add: lower_eval)

subsection \<open>Floating point rounding\<close>

text \<open>The exponent found by \<open>ilog2\<close> is the binary logarithm rounded down.\<close>

lemma bitlen_powi_bounds:
  fixes a :: int
  assumes "0 < a"
  shows "(2::rat) powi (bitlen a - 1) \<le> of_int a" and "of_int a < (2::rat) powi (bitlen a)"
proof -
  from bitlen_bounds [OF assms]
  have lo: "2 ^ nat (bitlen a - 1) \<le> a" and hi: "a < 2 ^ nat (bitlen a)" by simp_all
  have pos: "1 \<le> bitlen a"
  proof (rule ccontr)
    assume "\<not> 1 \<le> bitlen a"
    then have "nat (bitlen a) = 0" by simp
    with hi have "a < 1" by simp
    with assms show False by simp
  qed
  have "(of_int (2 ^ nat (bitlen a - 1)) :: rat) \<le> of_int a"
    using lo by (simp only: of_int_le_iff)
  then show "(2::rat) powi (bitlen a - 1) \<le> of_int a"
    using pos by (simp add: power_int_def)
  have "(of_int a :: rat) < of_int (2 ^ nat (bitlen a))"
    using hi by (simp only: of_int_less_iff)
  then show "of_int a < (2::rat) powi (bitlen a)"
    using pos by (simp add: power_int_def)
qed

lemma powi2_pos [simp]: "0 < (2::rat) powi k"
  by (simp add: zero_less_power_int)

lemma powi2_mono: "a \<le> b \<Longrightarrow> (2::rat) powi a \<le> 2 powi b"
  by (rule power_int_increasing) simp_all

lemma powi2_strict_mono: "a < b \<Longrightarrow> (2::rat) powi a < 2 powi b"
  by (rule power_int_strict_increasing) simp_all

lemma powi2_add: "(2::rat) powi (a + b) = 2 powi a * 2 powi b"
  by (simp add: power_int_add)

lemma powi2_diff: "(2::rat) powi (a - b) = 2 powi a / 2 powi b"
  by (simp add: power_int_diff)

lemma powi2_less_cancel: "(2::rat) powi a < 2 powi b \<Longrightarrow> a < b"
  by (metis linorder_not_less powi2_mono)

lemma ilog2_bounds:
  assumes "x \<noteq> 0"
  shows "2 powi (ilog2 x) \<le> \<bar>x\<bar>" and "\<bar>x\<bar> < 2 powi (ilog2 x + 1)"
proof -
  obtain p q where pq: "quotient_of x = (p, q)" by (cases "quotient_of x")
  then have q: "0 < q" and x: "x = of_int p / of_int q"
    by (simp_all add: quotient_of_denom_pos quotient_of_div)
  from assms x have p: "0 < \<bar>p\<bar>" by auto
  define d where "d = bitlen \<bar>p\<bar> - bitlen q"
  have ax: "\<bar>x\<bar> = of_int \<bar>p\<bar> / of_int q"
    using q by (simp add: x)
  note P = bitlen_powi_bounds [OF p]
  note Q = bitlen_powi_bounds [OF q]
  have qpos: "(0::rat) < of_int q" using q by simp
  have "of_int \<bar>p\<bar> / of_int q < 2 powi (bitlen \<bar>p\<bar>) / (of_int q :: rat)"
    using P(2) qpos by (simp add: divide_strict_right_mono)
  also have "\<dots> \<le> 2 powi (bitlen \<bar>p\<bar>) / 2 powi (bitlen q - 1)"
    using Q(1) by (simp add: frac_le)
  also have "\<dots> = 2 powi (d + 1)"
    by (simp add: d_def powi2_diff [symmetric] algebra_simps)
  finally have up: "\<bar>x\<bar> < 2 powi (d + 1)" by (simp add: ax)
  have "(2::rat) powi (d - 1) = 2 powi (bitlen \<bar>p\<bar> - 1) / 2 powi (bitlen q)"
    by (simp add: d_def powi2_diff [symmetric] algebra_simps)
  also have "\<dots> \<le> of_int \<bar>p\<bar> / 2 powi (bitlen q)"
    using P(1) by (simp add: divide_right_mono)
  also have "\<dots> \<le> of_int \<bar>p\<bar> / of_int q"
    using Q(2) qpos p by (simp add: frac_le)
  finally have lo: "2 powi (d - 1) \<le> \<bar>x\<bar>" by (simp add: ax)
  have il: "ilog2 x = (if 2 powi d \<le> \<bar>x\<bar> then d else d - 1)"
    by (simp add: ilog2_def pq d_def Let_def)
  show "2 powi (ilog2 x) \<le> \<bar>x\<bar>" using lo by (simp add: il)
  show "\<bar>x\<bar> < 2 powi (ilog2 x + 1)" using up by (simp add: il)
qed

lemma ilog2_unique:
  assumes "x \<noteq> 0" "2 powi k \<le> \<bar>x\<bar>" "\<bar>x\<bar> < 2 powi (k + 1)"
  shows "ilog2 x = k"
proof -
  note B = ilog2_bounds [OF assms(1)]
  have "2 powi k < (2::rat) powi (ilog2 x + 1)" using assms(2) B(2) by simp
  then have 1: "k < ilog2 x + 1" by (rule powi2_less_cancel)
  have "2 powi (ilog2 x) < (2::rat) powi (k + 1)" using assms(3) B(1) by simp
  then have 2: "ilog2 x < k + 1" by (rule powi2_less_cancel)
  from 1 2 show ?thesis by simp
qed

lemma round_half_even_error: "\<bar>of_int (round_half_even t) - t\<bar> \<le> 1 / 2"
proof -
  define r where "r = t - of_int \<lfloor>t\<rfloor>"
  have r: "0 \<le> r" "r < 1" unfolding r_def by linarith+
  have down: "of_int \<lfloor>t\<rfloor> - t = - r" and up: "of_int (\<lfloor>t\<rfloor> + 1) - t = 1 - r"
    by (simp_all add: r_def)
  consider "r < 1 / 2" | "1 / 2 < r" | "r = 1 / 2" by linarith
  then show ?thesis
  proof cases
    case 1
    then have "round_half_even t = \<lfloor>t\<rfloor>"
      by (simp add: round_half_even_def Let_def r_def)
    with r 1 show ?thesis by (simp only: down)
  next
    case 2
    then have "round_half_even t = \<lfloor>t\<rfloor> + 1"
      by (simp add: round_half_even_def Let_def r_def)
    with r 2 show ?thesis by (simp only: up)
  next
    case 3
    then have "round_half_even t = \<lfloor>t\<rfloor> \<or> round_half_even t = \<lfloor>t\<rfloor> + 1"
      by (simp add: round_half_even_def Let_def r_def)
    then show ?thesis
    proof
      assume "round_half_even t = \<lfloor>t\<rfloor>"
      with 3 show ?thesis by (simp only: down)
    next
      assume "round_half_even t = \<lfloor>t\<rfloor> + 1"
      with 3 show ?thesis by (simp only: up)
    qed
  qed
qed

lemma round_half_even_unique:
  assumes "\<bar>of_int m - t\<bar> < 1 / 2"
  shows "round_half_even t = m"
proof -
  from assms have "of_int m - t < 1 / 2" and "- (of_int m - t) < 1 / 2"
    by (simp_all only: abs_less_iff)
  then have lo: "of_int m - 1 / 2 < t" and hi: "t < of_int m + 1 / 2"
    by linarith+
  show ?thesis
  proof (cases "of_int m \<le> t")
    case True
    with hi have "\<lfloor>t\<rfloor> = m" by (intro floor_unique) simp_all
    with hi show ?thesis by (simp add: round_half_even_def Let_def)
  next
    case False
    with lo have fl: "\<lfloor>t\<rfloor> = m - 1" by (intro floor_unique) simp_all
    from lo have "1 / 2 < t - of_int (m - 1)" by simp
    with fl show ?thesis by (simp add: round_half_even_def Let_def)
  qed
qed

lemma round_half_even_of_int [simp]: "round_half_even (of_int n) = n"
  by (rule round_half_even_unique) simp

lemma round_double_normal:
  assumes x: "x \<noteq> 0" and lo: "- 1022 \<le> ilog2 x" and hi: "ilog2 x \<le> 1022"
  shows "\<exists>y. round_double x = Finite y \<and> \<bar>y - x\<bar> \<le> \<bar>x\<bar> / 2 ^ 53"
proof -
  define e where "e = ilog2 x - 52"
  define m where "m = round_half_even (x / 2 powi e)"
  define y :: rat where "y = of_int m * 2 powi e"
  note B = ilog2_bounds [OF x]
  have emax: "max (ilog2 x - 52) (- 1074) = e" using lo by (simp add: e_def)
  have "y - x = (of_int m - x / 2 powi e) * 2 powi e"
    by (simp add: y_def algebra_simps)
  then have "\<bar>y - x\<bar> = \<bar>of_int m - x / 2 powi e\<bar> * 2 powi e"
    by (simp add: abs_mult)
  also have "\<dots> \<le> 1 / 2 * 2 powi e"
    unfolding m_def by (intro mult_right_mono round_half_even_error) simp
  also have "\<dots> = 2 powi (ilog2 x) / 2 ^ 53"
    by (simp add: e_def powi2_diff)
  also have "\<dots> \<le> \<bar>x\<bar> / 2 ^ 53"
    using B(1) by (simp add: divide_right_mono)
  finally have err: "\<bar>y - x\<bar> \<le> \<bar>x\<bar> / 2 ^ 53" .
  have "\<bar>x\<bar> < 2 powi 1023"
    using B(2) powi2_mono [of "ilog2 x + 1" 1023] hi by simp
  then have x1023: "\<bar>x\<bar> < 2 ^ 1023" by simp
  have "\<bar>y\<bar> \<le> \<bar>x\<bar> + \<bar>y - x\<bar>" by simp
  also have "\<dots> \<le> \<bar>x\<bar> + \<bar>x\<bar> / 2 ^ 53" using err by simp
  also have "\<dots> \<le> 2 * \<bar>x\<bar>" by (simp add: field_simps)
  also have "\<dots> < 2 ^ 1024" using x1023 by simp
  finally have "\<not> 2 ^ 1024 \<le> \<bar>y\<bar>" by simp
  then have "round_double x = Finite y"
    using x by (simp add: round_double_def emax Let_def m_def [symmetric] y_def [symmetric])
  with err show ?thesis by blast
qed

lemma round_double_exact:
  assumes xm: "x = of_int m * 2 powi k" and m: "\<bar>m\<bar> < 2 ^ 53" and k: "- 1074 \<le> k"
    and x: "\<bar>x\<bar> < 2 ^ 1024"
  shows "round_double x = Finite x"
proof (cases "x = 0")
  case True
  then show ?thesis by (simp add: round_double_def)
next
  case False
  define e where "e = max (ilog2 x - 52) (- 1074)"
  note B = ilog2_bounds [OF False]
  have "\<bar>x\<bar> = of_int \<bar>m\<bar> * 2 powi k" by (simp add: xm abs_mult)
  also have "\<dots> < 2 ^ 53 * 2 powi k"
  proof -
    have "(of_int \<bar>m\<bar> :: rat) < of_int (2 ^ 53)" using m by (simp only: of_int_less_iff)
    then show ?thesis by (simp del: of_int_abs)
  qed
  also have "\<dots> = 2 powi (53 + k)" by (simp add: powi2_add)
  finally have "2 powi (ilog2 x) < (2::rat) powi (53 + k)" using B(1) by simp
  then have "ilog2 x < 53 + k" by (rule powi2_less_cancel)
  with k have ek: "e \<le> k" by (simp add: e_def)
  then obtain j where j: "k = e + int j" by (metis zle_iff_zadd)
  have "x / 2 powi e = of_int m * 2 powi (int j)"
    by (simp add: xm j powi2_add)
  also have "\<dots> = of_int (m * 2 ^ j)" by simp
  finally have "round_half_even (x / 2 powi e) = m * 2 ^ j"
    by (simp only: round_half_even_of_int)
  moreover have "of_int (m * 2 ^ j) * 2 powi e = x"
    by (simp add: xm j powi2_add)
  ultimately show ?thesis
    using False x by (simp add: round_double_def e_def [symmetric] Let_def del: of_int_mult of_int_power)
qed

lemma round_double_eval:
  assumes x: "x \<noteq> 0" and lo: "2 powi k \<le> \<bar>x\<bar>" and hi: "\<bar>x\<bar> < 2 powi (k + 1)"
    and k: "- 1022 \<le> k"
    and m: "\<bar>of_int m - x / 2 powi (k - 52)\<bar> < 1 / 2"
    and y: "\<bar>of_int m * 2 powi (k - 52)\<bar> < (2::rat) ^ 1024"
  shows "round_double x = Finite (of_int m * 2 powi (k - 52))"
proof -
  have il: "ilog2 x = k" using x lo hi by (rule ilog2_unique)
  have emax: "max (k - 52) (- 1074) = k - 52" using k by simp
  have "round_half_even (x / 2 powi (k - 52)) = m" using m by (rule round_half_even_unique)
  then show ?thesis
    using x y by (simp add: round_double_def il emax Let_def)
qed

lemma round_double_normal_range:
  assumes "2 powi (- 1022) \<le> \<bar>x\<bar>" and "\<bar>x\<bar> < 2 powi 1023"
  shows "\<exists>y. round_double x = Finite y \<and> \<bar>y - x\<bar> \<le> \<bar>x\<bar> / 2 ^ 53"
proof -
  have "0 < (2::rat) powi (- 1022)" by (rule powi2_pos)
  with assms(1) have x: "x \<noteq> 0" by auto
  note B = ilog2_bounds [OF x]
  have "(2::rat) powi (- 1022) < 2 powi (ilog2 x + 1)" using assms(1) B(2) by simp
  then have lo: "- 1022 < ilog2 x + 1" by (rule powi2_less_cancel)
  have "(2::rat) powi (ilog2 x) < 2 powi 1023" using assms(2) B(1) by simp
  then have hi: "ilog2 x < 1023" by (rule powi2_less_cancel)
  from lo hi show ?thesis by (intro round_double_normal x) simp_all
qed

lemma int_truediv_half:
  assumes "\<bar>n\<bar> < 2 ^ 53"
  shows "int_truediv n 2 = Inr (of_int n / 2)"
proof -
  have x: "(of_int n / of_int 2 :: rat) = of_int n * 2 powi (- 1)"
    by (simp add: power_int_minus field_simps)
  have "(of_int \<bar>n\<bar> :: rat) < of_int (2 ^ 53)" using assms by (simp only: of_int_less_iff)
  then have "\<bar>of_int n :: rat\<bar> < 2 ^ 53" by simp
  then have "\<bar>of_int n / of_int 2 :: rat\<bar> < 2 ^ 1024" by simp
  from round_double_exact [OF x assms _ this]
  show ?thesis by (simp add: int_truediv_def)
qed

lemma float_of_int_exact:
  assumes "\<bar>n\<bar> < 2 ^ 53"
  shows "float_of_int n = Inr (of_int n)"
proof -
  have x: "(of_int n :: rat) = of_int n * 2 powi 0" by simp
  have "(of_int \<bar>n\<bar> :: rat) < of_int (2 ^ 53)" using assms by (simp only: of_int_less_iff)
  then have "\<bar>of_int n :: rat\<bar> < 2 ^ 53" by simp
  then have "\<bar>of_int n :: rat\<bar> < 2 ^ 1024" by simp
  from round_double_exact [OF x assms _ this]
  show ?thesis by (simp add: float_of_int_def)
qed

lemma trunc_half: "0 \<le> n \<Longrightarrow> trunc (of_int n / 2) = n div 2"
proof -
  assume "0 \<le> n"
  have "\<lfloor>(of_int n / of_int 2 :: rat)\<rfloor> = n div 2" by (rule floor_divide_of_int_eq)
  with \<open>0 \<le> n\<close> show ?thesis by (simp add: trunc_def)
qed

lemma trunc_nonneg: "0 \<le> x \<Longrightarrow> trunc x = \<lfloor>x\<rfloor>"
  by (simp add: trunc_def)

text \<open>Two roundings in a row move the quotient by at most three units in the last place.\<close>

lemma two_roundings:
  fixes r w a q :: rat
  assumes r: "0 < r" and w: "0 \<le> w"
    and a: "\<bar>a - r\<bar> \<le> r / 2 ^ 53"
    and q: "\<bar>q - w / a\<bar> \<le> (w / a) / 2 ^ 53"
  shows "\<bar>q - w / r\<bar> \<le> 3 * (w / r) / 2 ^ 53" and "0 < a" and "0 \<le> q"
proof -
  define u :: rat where "u = 1 / 2 ^ 53"
  have u: "0 < u" "u \<le> 1 / 3" by (simp_all add: u_def)
  from a have "\<bar>a - r\<bar> \<le> r * u" by (simp add: u_def)
  then have "a - r \<le> r * u" and "- (a - r) \<le> r * u" by (simp_all only: abs_le_iff)
  then have a1: "r * (1 - u) \<le> a" and a2: "a \<le> r * (1 + u)"
    by (simp_all add: algebra_simps)
  have "0 < r * (1 - u)" using r u by simp
  with a1 show apos: "0 < a" by simp
  define t where "t = w / a"
  have t0: "0 \<le> t" using w apos by (simp add: t_def)
  from q have "\<bar>q - t\<bar> \<le> t * u" by (simp add: u_def t_def)
  then have "q - t \<le> t * u" and "- (q - t) \<le> t * u" by (simp_all only: abs_le_iff)
  then have q1: "t * (1 - u) \<le> q" and q2: "q \<le> t * (1 + u)"
    by (simp_all add: algebra_simps)
  have "0 \<le> t * (1 - u)" using t0 u by (intro mult_nonneg_nonneg) simp_all
  with q1 show "0 \<le> q" by simp
  define Q where "Q = w / r"
  have Q0: "0 \<le> Q" using w r by (simp add: Q_def)
  have ta: "t * a = Q * r" using apos r by (simp add: t_def Q_def)
  have tup: "t * (1 - u) \<le> Q"
  proof -
    have "t * (r * (1 - u)) \<le> t * a" using a1 t0 by (rule mult_left_mono)
    also have "t * a = Q * r" by (rule ta)
    finally have "(t * (1 - u)) * r \<le> Q * r" by (simp add: mult_ac)
    then show ?thesis using r by simp
  qed
  have tlo: "Q \<le> t * (1 + u)"
  proof -
    have "Q * r = t * a" by (rule ta [symmetric])
    also have "\<dots> \<le> t * (r * (1 + u))" using a2 t0 by (rule mult_left_mono)
    finally have "Q * r \<le> (t * (1 + u)) * r" by (simp add: mult_ac)
    then show ?thesis using r by simp
  qed
  have up: "q \<le> Q * (1 + 3 * u)"
  proof -
    have "q * (1 - u) \<le> t * (1 + u) * (1 - u)"
      using q2 u by (intro mult_right_mono) simp_all
    also have "\<dots> = (t * (1 - u)) * (1 + u)" by (simp add: mult_ac)
    also have "\<dots> \<le> Q * (1 + u)" using tup u by (intro mult_right_mono) simp_all
    also have "\<dots> \<le> Q * ((1 + 3 * u) * (1 - u))"
    proof (rule mult_left_mono [OF _ Q0])
      have "3 * u * u \<le> u" using u by (simp add: mult_le_cancel_right1)
      then show "1 + u \<le> (1 + 3 * u) * (1 - u)" by (simp add: algebra_simps)
    qed
    finally have "q * (1 - u) \<le> (Q * (1 + 3 * u)) * (1 - u)" by (simp add: mult_ac)
    then show ?thesis using u by simp
  qed
  have down: "Q * (1 - 3 * u) \<le> q"
  proof -
    have "Q * (1 - u) \<le> t * (1 + u) * (1 - u)"
      using tlo u by (intro mult_right_mono) simp_all
    also have "\<dots> = (t * (1 - u)) * (1 + u)" by (simp add: mult_ac)
    also have "\<dots> \<le> q * (1 + u)" using q1 u by (intro mult_right_mono) simp_all
    finally have 1: "Q * (1 - u) \<le> q * (1 + u)" .
    have "Q * ((1 - 3 * u) * (1 + u)) \<le> Q * (1 - u)"
    proof (rule mult_left_mono [OF _ Q0])
      have "0 \<le> 3 * u * u" using u by simp
      then show "(1 - 3 * u) * (1 + u) \<le> 1 - u" using u by (simp add: algebra_simps)
    qed
    with 1 have "(Q * (1 - 3 * u)) * (1 + u) \<le> q * (1 + u)" by (simp add: mult_ac)
    then show ?thesis using u by simp
  qed
  from up down have "q - Q \<le> 3 * Q * u" and "- (q - Q) \<le> 3 * Q * u"
    by (simp_all add: algebra_simps)
  then have "\<bar>q - Q\<bar> \<le> 3 * Q * u" by (simp only: abs_le_iff)
  then show "\<bar>q - w / r\<bar> \<le> 3 * (w / r) / 2 ^ 53"
    by (simp add: Q_def u_def)
qed

lemma rounded_positive:
  fixes r a :: rat
  assumes r: "0 < r" and a: "\<bar>a - r\<bar> \<le> r / 2 ^ 53"
  shows "r / 2 \<le> a" and "a \<le> 2 * r"
proof -
  have "r / 2 ^ 53 \<le> r / 2" using r by (simp add: field_simps)
  with a have "\<bar>a - r\<bar> \<le> r / 2" by linarith
  then have "a - r \<le> r / 2" and "- (a - r) \<le> r / 2" by (simp_all only: abs_le_iff)
  then show "r / 2 \<le> a" and "a \<le> 2 * r" using r by simp_all
qed

lemma floor_near_quotient:
  fixes N vw :: int and q :: rat
  assumes vw: "0 < vw" and N: "0 \<le> N" and small: "3 * N < 2 ^ 53"
    and q: "\<bar>q - of_int N / of_int vw\<bar> \<le> 3 * (of_int N / of_int vw) / 2 ^ 53"
  shows "(\<lfloor>q\<rfloor> = N div vw \<or> \<lfloor>q\<rfloor> = N div vw - 1) \<and> (\<not> vw dvd N \<longrightarrow> \<lfloor>q\<rfloor> = N div vw)"
proof -
  define F where "F = N div vw"
  define m where "m = N mod vw"
  define v :: rat where "v = of_int vw"
  have v: "0 < v" using vw by (simp add: v_def)
  have m: "0 \<le> m" "m < vw" using vw by (simp_all add: m_def)
  have "N = vw * F + m" by (simp add: F_def m_def)
  then have "(of_int N :: rat) = of_int (vw * F + m)" by (simp only:)
  then have NF: "(of_int N :: rat) = v * of_int F + of_int m" by (simp add: v_def)
  have "(of_int (3 * N) :: rat) < of_int (2 ^ 53)" using small by (simp only: of_int_less_iff)
  then have e1: "3 * (of_int N :: rat) / 2 ^ 53 < 1" by simp
  define e :: rat where "e = 3 * of_int N / 2 ^ 53"
  have "e / v < 1 / v" using e1 v unfolding e_def [symmetric] by (rule divide_strict_right_mono)
  moreover have "3 * (of_int N / v) / 2 ^ 53 = e / v" by (simp add: e_def)
  ultimately have err: "3 * (of_int N / v) / 2 ^ 53 < 1 / v" by (simp only:)
  from q have "\<bar>q - of_int N / v\<bar> < 1 / v" using err by (simp add: v_def)
  then have d1: "q - of_int N / v < 1 / v" and d2: "of_int N / v - q < 1 / v"
    by (simp_all only: abs_less_iff minus_diff_eq)
  have vv: "1 / v * v = 1" and Nv: "of_int N / v * v = of_int N" using v by simp_all
  have "(q - of_int N / v) * v < 1 / v * v" using d1 v by (rule mult_strict_right_mono)
  then have up: "q * v < of_int N + 1" by (simp only: vv Nv left_diff_distrib)
  have "(of_int N / v - q) * v < 1 / v * v" using d2 v by (rule mult_strict_right_mono)
  then have down: "of_int N - 1 < q * v" by (simp only: vv Nv left_diff_distrib)
  have "of_int N + 1 \<le> v * (of_int F + 1)"
  proof -
    have "(of_int (m + 1) :: rat) \<le> of_int vw" using m by (simp only: of_int_le_iff)
    then show ?thesis by (simp add: NF v_def algebra_simps)
  qed
  with up have "q * v < (of_int F + 1) * v" by (simp add: mult_ac)
  then have qF1: "q < of_int F + 1" using v by simp
  have "v * (of_int F - 1) \<le> of_int N - 1"
  proof -
    have "(of_int 1 :: rat) \<le> of_int vw" using vw by (simp only: of_int_le_iff)
    moreover have "(0 :: rat) \<le> of_int m" using m by simp
    ultimately show ?thesis by (simp add: NF v_def algebra_simps)
  qed
  with down have "(of_int F - 1) * v < q * v" by (simp add: mult_ac)
  then have qF0: "of_int (F - 1) < q" using v by simp
  from qF0 have lo: "F - 1 \<le> \<lfloor>q\<rfloor>" by (simp add: le_floor_iff)
  from qF1 have hi: "\<lfloor>q\<rfloor> \<le> F" by (simp add: floor_le_iff)
  have exact: "\<lfloor>q\<rfloor> = F" if "\<not> vw dvd N"
  proof -
    from that have "m \<noteq> 0" by (simp add: m_def dvd_eq_mod_eq_0)
    with m have "1 \<le> m" by simp
    then have "(of_int 1 :: rat) \<le> of_int m" by (simp only: of_int_le_iff)
    then have "v * of_int F \<le> of_int N - 1" by (simp add: NF)
    with down have "of_int F * v < q * v" by (simp add: mult_ac)
    then have "of_int F < q" using v by simp
    then have "F \<le> \<lfloor>q\<rfloor>" by (simp add: le_floor_iff)
    with hi show ?thesis by simp
  qed
  from lo hi exact show ?thesis unfolding F_def by auto
qed

lemma of_int_less_pow2:
  fixes n :: int
  assumes "n < 2 ^ k"
  shows "(of_int n :: rat) < 2 ^ k"
proof -
  have "(of_int n :: rat) < of_int (2 ^ k)" using assms by (simp only: of_int_less_iff)
  then show ?thesis by simp
qed

lemma aspect_rounded:
  fixes vw vh :: int
  assumes vw: "0 < vw" "vw < 2 ^ 20" and vh: "0 < vh" "vh < 2 ^ 20"
  shows "\<exists>a. int_truediv vw vh = Inr a
           \<and> \<bar>a - of_int vw / of_int vh\<bar> \<le> (of_int vw / of_int vh) / 2 ^ 53"
proof -
  define r :: rat where "r = of_int vw / of_int vh"
  have W: "(1::rat) \<le> of_int vw" "(of_int vw :: rat) < 2 ^ 20"
    using vw by (simp_all add: of_int_less_pow2)
  have H: "(1::rat) \<le> of_int vh" "(of_int vh :: rat) < 2 ^ 20"
    using vh by (simp_all add: of_int_less_pow2)
  have r0: "0 < r" using W H by (simp add: r_def)
  have "1 / 2 ^ 20 \<le> 1 / (of_int vh :: rat)" using H by (intro divide_left_mono) simp_all
  also have "\<dots> \<le> r" unfolding r_def using W H by (intro divide_right_mono) simp_all
  finally have lo: "1 / 2 ^ 20 \<le> r" .
  have "r \<le> of_int vw / 1" unfolding r_def using W H by (intro divide_left_mono) simp_all
  also have "\<dots> < 2 ^ 20" using W by simp
  finally have hi: "r < 2 ^ 20" .
  have "(2::rat) powi (- 1022) \<le> 2 powi (- 20)" by (rule powi2_mono) simp
  also have "\<dots> = 1 / 2 ^ 20" by (simp add: power_int_minus field_simps)
  finally have 1: "2 powi (- 1022) \<le> \<bar>r\<bar>" using lo r0 by simp
  have "(2::rat) ^ 20 = 2 powi 20" by simp
  also have "\<dots> \<le> 2 powi 1023" by (rule powi2_mono) simp
  finally have 2: "\<bar>r\<bar> < 2 powi 1023" using hi r0 by simp
  from round_double_normal_range [OF 1 2] r0 vh show ?thesis
    by (auto simp add: int_truediv_def r_def)
qed

lemma quotient_rounded:
  fixes w :: int and a :: rat
  assumes w: "0 < w" "w < 2 ^ 30" and a: "1 / 2 ^ 21 \<le> a" "a \<le> 2 ^ 21"
  shows "\<exists>q. float_truediv (of_int w) a = Inr (Finite q)
           \<and> \<bar>q - of_int w / a\<bar> \<le> (of_int w / a) / 2 ^ 53"
proof -
  define t :: rat where "t = of_int w / a"
  have a0: "0 < a" using a(1) by (rule less_le_trans [rotated]) simp
  have W: "(1::rat) \<le> of_int w" "(of_int w :: rat) < 2 ^ 30"
    using w by (simp_all add: of_int_less_pow2)
  have "1 / 2 ^ 21 \<le> 1 / a" using a a0 by (intro divide_left_mono) simp_all
  also have "\<dots> \<le> t" unfolding t_def using W a0 by (intro divide_right_mono) simp_all
  finally have lo: "1 / 2 ^ 21 \<le> t" .
  then have t0: "0 < t" by (rule less_le_trans [rotated]) simp
  have "t \<le> 2 ^ 30 / a" unfolding t_def using W a0 by (intro divide_right_mono) simp_all
  also have "\<dots> \<le> 2 ^ 30 / (1 / 2 ^ 21)" using a by (intro divide_left_mono) simp_all
  also have "\<dots> = 2 ^ 51" by simp
  finally have hi: "t \<le> 2 ^ 51" .
  have "(2::rat) powi (- 1022) \<le> 2 powi (- 21)" by (rule powi2_mono) simp
  also have "\<dots> = 1 / 2 ^ 21" by (simp add: power_int_minus field_simps)
  finally have 1: "2 powi (- 1022) \<le> \<bar>t\<bar>" using lo t0 by simp
  have "(2::rat) ^ 51 = 2 powi 51" by simp
  also have "\<dots> < 2 powi 1023" by (rule powi2_strict_mono) simp
  finally have 2: "\<bar>t\<bar> < 2 powi 1023" using hi t0 by simp
  from round_double_normal_range [OF 1 2] t0 a0 show ?thesis
    by (auto simp add: float_truediv_def t_def)
qed

lemma geometry_bounded:
  fixes dw vw vh :: int
  assumes dw: "20 \<le> dw" "dw < 2 ^ 31"
    and vw: "0 < vw" "vw < 2 ^ 20" and vh: "0 < vh" "vh < 2 ^ 20"
  shows "\<exists>h. compute_geometry dw vw vh
               = Inr \<lparr>width = (dw - 20) div 2, height = h, x1 = ''10'', y1 = ''35'',
                      x2 = str_int (dw div 2 + 5), y2 = ''35''\<rparr>
           \<and> (h = ((dw - 20) div 2 * vh) div vw \<or> h = ((dw - 20) div 2 * vh) div vw - 1)
           \<and> (\<not> vw dvd (dw - 20) div 2 * vh \<longrightarrow> h = ((dw - 20) div 2 * vh) div vw)"
proof -
  define w where "w = (dw - 20) div 2"
  define r :: rat where "r = of_int vw / of_int vh"
  have w: "0 \<le> w" "w < 2 ^ 30" using dw by (simp_all add: w_def)
  from aspect_rounded [OF vw vh] obtain a where
    a: "int_truediv vw vh = Inr a" and ar: "\<bar>a - r\<bar> \<le> r / 2 ^ 53"
    unfolding r_def by blast
  have W: "(1::rat) \<le> of_int vw" "(of_int vw :: rat) < 2 ^ 20"
    using vw by (simp_all add: of_int_less_pow2)
  have H: "(1::rat) \<le> of_int vh" "(of_int vh :: rat) < 2 ^ 20"
    using vh by (simp_all add: of_int_less_pow2)
  have r0: "0 < r" using W H by (simp add: r_def)
  have "1 / 2 ^ 20 \<le> 1 / (of_int vh :: rat)" using H by (intro divide_left_mono) simp_all
  also have "\<dots> \<le> r" unfolding r_def using W H by (intro divide_right_mono) simp_all
  finally have rlo: "1 / 2 ^ 20 \<le> r" .
  have "r \<le> of_int vw / 1" unfolding r_def using W H by (intro divide_left_mono) simp_all
  also have "\<dots> < 2 ^ 20" using W by simp
  finally have rhi: "r < 2 ^ 20" .
  note A = rounded_positive [OF r0 ar]
  have alo: "1 / 2 ^ 21 \<le> a" using A(1) rlo by simp
  have ahi: "a \<le> 2 ^ 21" using A(2) rhi by simp
  have a0: "0 < a" using alo by (rule less_le_trans [rotated]) simp
  define hw :: rat where "hw = of_int (dw - 20) / 2"
  define hd :: rat where "hd = of_int dw / 2"
  have s1: "int_truediv (dw - 20) 2 = Inr hw"
    unfolding hw_def using dw by (intro int_truediv_half) simp
  have s1': "trunc hw = w"
    unfolding hw_def w_def using dw by (intro trunc_half) simp
  have s2: "float_of_int w = Inr (of_int w)"
    using w by (intro float_of_int_exact) simp
  have s4: "int_truediv dw 2 = Inr hd"
    unfolding hd_def using dw by (intro int_truediv_half) simp
  have s4': "trunc hd = dw div 2"
    unfolding hd_def using dw by (intro trunc_half) simp
  have "\<exists>h. (\<exists>q. float_truediv (of_int w) a = Inr q \<and> int_of_float q = Inr h)
          \<and> (h = (w * vh) div vw \<or> h = (w * vh) div vw - 1)
          \<and> (\<not> vw dvd w * vh \<longrightarrow> h = (w * vh) div vw)"
  proof (cases "w = 0")
    case True
    have "float_truediv (of_int w) a = Inr (Finite 0)"
      using a0 by (simp add: True float_truediv_def round_double_def)
    moreover have "int_of_float (Finite 0) = Inr 0" by (simp add: int_of_float_def trunc_def)
    ultimately show ?thesis using True by auto
  next
    case False
    with w have wpos: "0 < w" by simp
    from quotient_rounded [OF wpos w(2) alo ahi] obtain q where
      q: "float_truediv (of_int w) a = Inr (Finite q)"
      and qt: "\<bar>q - of_int w / a\<bar> \<le> (of_int w / a) / 2 ^ 53" by blast
    have w0: "(0::rat) \<le> of_int w" using w by simp
    note T = two_roundings [OF r0 w0 ar qt]
    have Q: "of_int w / r = (of_int (w * vh) :: rat) / of_int vw"
      using W H by (simp add: r_def)
    have N0: "0 \<le> w * vh" using w vh by simp
    have "w * vh < 2 ^ 30 * 2 ^ 20"
      using w vh by (intro mult_strict_mono) simp_all
    then have small: "3 * (w * vh) < 2 ^ 53" by simp
    from T(1) have "\<bar>q - of_int (w * vh) / of_int vw\<bar> \<le> 3 * (of_int (w * vh) / of_int vw) / 2 ^ 53"
      by (simp only: Q)
    from floor_near_quotient [OF vw(1) N0 small this]
    have "(\<lfloor>q\<rfloor> = (w * vh) div vw \<or> \<lfloor>q\<rfloor> = (w * vh) div vw - 1)
            \<and> (\<not> vw dvd w * vh \<longrightarrow> \<lfloor>q\<rfloor> = (w * vh) div vw)" .
    moreover have "int_of_float (Finite q) = Inr \<lfloor>q\<rfloor>"
      using T(3) by (simp add: int_of_float_def trunc_nonneg)
    ultimately show ?thesis using q by blast
  qed
  then obtain h q where q: "float_truediv (of_int w) a = Inr q" and h: "int_of_float q = Inr h"
    and hF: "h = (w * vh) div vw \<or> h = (w * vh) div vw - 1"
    and hE: "\<not> vw dvd w * vh \<longrightarrow> h = (w * vh) div vw" by blast
  have "compute_geometry dw vw vh
          = Inr \<lparr>width = w, height = h, x1 = ''10'', y1 = ''35'',
                 x2 = str_int (dw div 2 + 5), y2 = ''35''\<rparr>"
    by (simp add: compute_geometry_def a s1 s1' s2 q h s4 s4' Let_def)
  with hF hE show ?thesis unfolding w_def by blast
qed

lemma aspect_7_3: "int_truediv 7 3 = Inr (of_int 5254199565265579 * 2 powi (1 - 52))"
proof -
  have "round_double (7 / 3) = Finite (of_int 5254199565265579 * 2 powi (1 - 52))"
    by (rule round_double_eval) (simp_all add: power_int_minus)
  then show ?thesis by (simp add: int_truediv_def)
qed

lemma quotient_35: "float_truediv 35 (of_int 5254199565265579 * 2 powi (1 - 52)) = Inr (Finite (of_int 8444249301319679 * 2 powi (3 - 52)))"
proof -
  have "round_double (35 / (of_int 5254199565265579 * 2 powi (1 - 52))) = Finite (of_int 8444249301319679 * 2 powi (3 - 52))"
    by (rule round_double_eval) (simp_all add: power_int_minus)
  then show ?thesis by (simp add: float_truediv_def power_int_minus)
qed

lemma trunc_quotient_35: "int_of_float (Finite (of_int 8444249301319679 * 2 powi (3 - 52))) = Inr 14"
proof -
  have "\<lfloor>(of_int 8444249301319679 * 2 powi (3 - 52) :: rat)\<rfloor> = 14"
    by (rule floor_unique) (simp_all add: power_int_minus)
  then show ?thesis by (simp add: int_of_float_def trunc_def power_int_minus)
qed

lemma geometry_90_7_3:
  "compute_geometry 90 7 3
     = Inr \<lparr>width = 35, height = 14, x1 = ''10'', y1 = ''35'', x2 = ''50'', y2 = ''35''\<rparr>"
proof -
  have s1: "int_truediv (90 - 20) 2 = Inr 35"
    using int_truediv_half [of 70] by simp
  have s1': "trunc 35 = 35" by (simp add: trunc_def)
  have s2: "float_of_int 35 = Inr 35"
    using float_of_int_exact [of 35] by simp
  have s4: "int_truediv 90 2 = Inr 45"
    using int_truediv_half [of 90] by simp
  have s4': "trunc 45 = 45" by (simp add: trunc_def)
  have s5: "str_int 50 = ''50''"
    by (simp add: str_int_def str_nat.simps digit_char_def)
  show ?thesis
    unfolding compute_geometry_def
    by (simp only: aspect_7_3 s1 s1' s2 quotient_35 trunc_quotient_35 s4 s4' sum.case Let_def)
       (simp add: s5)
qed

subsection \<open>Reaching the command lines\<close>

lemma prepare_ready:
  assumes "3 \<le> length argv"
    and "isfile env (video1_of argv)" and "isfile env (video2_of argv)"
    and "VideoSize env (video1_of argv) = Inr (vw, vh)"
    and "compute_geometry (fst (display_size env)) vw vh = Inr g"
  shows "prepare env argv
           = Inr ([Ffprobe (video1_of argv)],
                  \<lparr>title1 = ''1: '' @ video1_of argv, title2 = ''2: '' @ video2_of argv,
                   cmd1 = make_cmd1 (''1: '' @ video1_of argv) (video1_of argv) g,
                   cmd2 = make_cmd2 (''2: '' @ video2_of argv) (video2_of argv)
                            (interpret_args argv) g\<rparr>)"
  using assms by (simp add: prepare_def Let_def)

lemma prepare_InrE:
  assumes "prepare env argv = Inr (evs, s)"
  obtains vw vh g where "3 \<le> length argv"
    and "isfile env (video1_of argv)" and "isfile env (video2_of argv)"
    and "VideoSize env (video1_of argv) = Inr (vw, vh)"
    and "compute_geometry (fst (display_size env)) vw vh = Inr g"
    and "evs = [Ffprobe (video1_of argv)]"
    and "s = \<lparr>title1 = ''1: '' @ video1_of argv, title2 = ''2: '' @ video2_of argv,
               cmd1 = make_cmd1 (''1: '' @ video1_of argv) (video1_of argv) g,
               cmd2 = make_cmd2 (''2: '' @ video2_of argv) (video2_of argv)
                        (interpret_args argv) g\<rparr>"
  using assms
  by (auto simp add: prepare_def Let_def split: if_splits sum.splits prod.splits)

lemma geometry_left_top:
  assumes "compute_geometry dw vw vh = Inr g"
  shows "x1 g = ''10''" and "y1 g = ''35''" and "y2 g = ''35''"
  using assms
  by (auto simp add: compute_geometry_def Let_def split: sum.splits)

lemma geometry_right:
  assumes "compute_geometry dw vw vh = Inr g" and "0 \<le> dw" and "dw < 2 ^ 53"
  shows "x2 g = str_int (dw div 2 + 5)"
proof -
  define hd :: rat where "hd = of_int dw / 2"
  have "int_truediv dw 2 = Inr hd"
    unfolding hd_def using assms(2,3) by (intro int_truediv_half) simp
  moreover have "trunc hd = dw div 2"
    unfolding hd_def using assms(2) by (rule trunc_half)
  ultimately show ?thesis
    using assms(1) by (auto simp add: compute_geometry_def Let_def split: sum.splits)
qed

subsection \<open>The sample run\<close>

lemma str_int_950: "str_int 950 = ''950''" and str_int_534: "str_int 534 = ''534''"
  and str_int_965: "str_int 965 = ''965''"
  by (simp_all add: str_int_def str_nat.simps digit_char_def)

lemma demo_VideoSize: "VideoSize demo_env ''video1.mp4'' = Inr (1280, 720)"
  by code_simp

lemma demo_geometry:
  "compute_geometry 1920 1280 720
     = Inr \<lparr>width = 950, height = 534, x1 = ''10'', y1 = ''35'', x2 = ''965'', y2 = ''35''\<rparr>"
proof -
  from geometry_bounded [of 1920 1280 720] obtain h where
    g: "compute_geometry 1920 1280 720
          = Inr \<lparr>width = (1920 - 20) div 2, height = h, x1 = ''10'', y1 = ''35'',
                 x2 = str_int (1920 div 2 + 5), y2 = ''35''\<rparr>"
    and h: "\<not> (1280::int) dvd (1920 - 20) div 2 * 720 \<longrightarrow> h = ((1920 - 20) div 2 * 720) div 1280"
    by auto
  from h have "h = 534" by simp
  with g show ?thesis by (simp add: str_int_965)
qed

lemma demo_prepare:
  \<open>prepare demo_env demo_argv
     = Inr ([Ffprobe ''video1.mp4''],
            \<lparr>title1 = ''1: video1.mp4'', title2 = ''2: video1.mp4'',
             cmd1 = ''ffplay -v 0 -window_title "1: video1.mp4" -i "video1.mp4" -x 950 -y 534 -left 10 -top 35'',
             cmd2 = ''ffplay -v 0 -window_title "2: video1.mp4" -i "video1.mp4" -vf eq=gamma=.9 -x 950 -y 534 -left 965 -top 35''\<rparr>)\<close>
proof -
  have v: "video1_of demo_argv = ''video1.mp4''" "video2_of demo_argv = ''video1.mp4''"
    by (simp_all add: video1_of_def video2_of_def demo_argv_def)
  have a: "interpret_args demo_argv = ''-vf eq=gamma=.9''"
    by (simp add: demo_argv_def interpret_args_gamma strip_char_def)
  have "prepare demo_env demo_argv
     = Inr ([Ffprobe (video1_of demo_argv)],
            \<lparr>title1 = ''1: '' @ video1_of demo_argv, title2 = ''2: '' @ video2_of demo_argv,
             cmd1 = make_cmd1 (''1: '' @ video1_of demo_argv) (video1_of demo_argv)
                      \<lparr>width = 950, height = 534, x1 = ''10'', y1 = ''35'', x2 = ''965'', y2 = ''35''\<rparr>,
             cmd2 = make_cmd2 (''2: '' @ video2_of demo_argv) (video2_of demo_argv)
                      (interpret_args demo_argv)
                      \<lparr>width = 950, height = 534, x1 = ''10'', y1 = ''35'', x2 = ''965'', y2 = ''35''\<rparr>\<rparr>)"
  proof (rule prepare_ready)
    show "3 \<le> length demo_argv" by (simp add: demo_argv_def)
    show "isfile demo_env (video1_of demo_argv)" "isfile demo_env (video2_of demo_argv)"
      by (simp_all add: v) (simp_all add: demo_env_def)
    show "VideoSize demo_env (video1_of demo_argv) = Inr (1280, 720)"
      by (simp add: v demo_VideoSize)
    show "compute_geometry (fst (display_size demo_env)) 1280 720
            = Inr \<lparr>width = 950, height = 534, x1 = ''10'', y1 = ''35'', x2 = ''965'', y2 = ''35''\<rparr>"
      using demo_geometry by (simp add: demo_env_def)
  qed
  then show ?thesis
    by (simp add: v a make_cmd1_def make_cmd2_def size_and_position_def
        str_int_950 str_int_534)
qed

lemma prepare_ignores_windows:
  "prepare (env\<lparr>win_active := f\<rparr>) argv = prepare env argv"
  by (simp add: prepare_def VideoSize_def Let_def)

subsection \<open>The command lines\<close>

text \<open>
  C9. When the script gets as far as the command lines, on a display whose width \<open>dw\<close> is
  not negative and below \<open>2 ^ 53\<close> (so that \<^verbatim>\<open>dw/2\<close> is exact; Tk reports a C
  \<^verbatim>\<open>int\<close>), the first command line ends with \<^verbatim>\<open>-left 10 -top 35\<close> and the second with
  \<^verbatim>\<open>-left\<close>, the decimal text of \<open>dw div 2 + 5\<close>, and \<^verbatim>\<open>-top 35\<close>.
\<close>

theorem window_origins:
  assumes "prepare env argv = Inr (evs, s)"
    and "fst (display_size env) = dw" and "0 \<le> dw" and "dw < 2 ^ 53"
  shows \<open>\<exists>w h.
      cmd1 s = ''ffplay -v 0 -window_title "1: '' @ video1_of argv @ ''" -i "'' @ video1_of argv @ ''"''
               @ '' -x '' @ str_int w @ '' -y '' @ str_int h @ '' -left 10 -top 35''
    \<and> cmd2 s = ''ffplay -v 0 -window_title "2: '' @ video2_of argv @ ''" -i "'' @ video2_of argv @ ''" ''
               @ interpret_args argv
               @ '' -x '' @ str_int w @ '' -y '' @ str_int h
               @ '' -left '' @ str_int (dw div 2 + 5) @ '' -top 35''\<close>
proof -
  from assms(1) obtain vw vh g where
    g: "compute_geometry (fst (display_size env)) vw vh = Inr g"
    and s: "s = \<lparr>title1 = ''1: '' @ video1_of argv, title2 = ''2: '' @ video2_of argv,
               cmd1 = make_cmd1 (''1: '' @ video1_of argv) (video1_of argv) g,
               cmd2 = make_cmd2 (''2: '' @ video2_of argv) (video2_of argv)
                        (interpret_args argv) g\<rparr>"
    by (rule prepare_InrE)
  from g assms(2) have g': "compute_geometry dw vw vh = Inr g" by simp
  note L = geometry_left_top [OF g'] and R = geometry_right [OF g' assms(3,4)]
  show ?thesis
    by (rule exI [of _ "width g"], rule exI [of _ "height g"])
       (simp add: s make_cmd1_def make_cmd2_def size_and_position_def L R)
qed

theorem window_origins_witness:
  \<open>\<exists>evs s w h.
      prepare demo_env demo_argv = Inr (evs, s)
    \<and> cmd1 s = ''ffplay -v 0 -window_title "1: video1.mp4" -i "video1.mp4"''
               @ '' -x '' @ str_int w @ '' -y '' @ str_int h @ '' -left 10 -top 35''
    \<and> cmd2 s = ''ffplay -v 0 -window_title "2: video1.mp4" -i "video1.mp4" -vf eq=gamma=.9''
               @ '' -x '' @ str_int w @ '' -y '' @ str_int h @ '' -left 965 -top 35''\<close>
proof -
  have v: "video1_of demo_argv = ''video1.mp4''" "video2_of demo_argv = ''video1.mp4''"
    by (simp_all add: video1_of_def video2_of_def demo_argv_def)
  have a: "interpret_args demo_argv = ''-vf eq=gamma=.9''"
    by (simp add: demo_argv_def interpret_args_gamma strip_char_def)
  have d: "fst (display_size demo_env) = 1920" by (simp add: demo_env_def)
  from window_origins [OF demo_prepare d] demo_prepare show ?thesis
    by (simp add: v a str_int_965)
qed

lemma take3_videos:
  assumes "3 \<le> length argv"
  shows "video1_of (take 3 argv) = video1_of argv" and "video2_of (take 3 argv) = video2_of argv"
    and "interpret_args (take 3 argv) = []"
  using assms by (simp_all add: video1_of_def video2_of_def interpret_args_def)

text \<open>
  C7. When the second argument is \<^verbatim>\<open>-same\<close> and the script gets as far as the command
  lines, both play the first video: after \<^verbatim>\<open>-i\<close> both name \<open>argv ! 1\<close>. The second
  command line carries the filter arguments between the video and the window geometry; the
  first has the geometry right after the video, and it is the command line the run would
  use for the first window with no filter arguments at all.
\<close>

theorem same_video_both_windows:
  assumes "argv ! 2 = ''-same''" and "prepare env argv = Inr (evs, s)"
  shows \<open>\<exists>w h x.
      cmd1 s = ''ffplay -v 0 -window_title "1: '' @ argv ! 1 @ ''" -i "'' @ argv ! 1 @ ''"''
               @ size_and_position w h ''10'' ''35''
    \<and> cmd2 s = ''ffplay -v 0 -window_title "2: '' @ argv ! 1 @ ''" -i "'' @ argv ! 1 @ ''" ''
               @ interpret_args argv @ size_and_position w h x ''35''
    \<and> (\<exists>s0. prepare env (take 3 argv) = Inr (evs, s0) \<and> cmd1 s0 = cmd1 s)\<close>
proof -
  from assms(2) obtain vw vh g where len: "3 \<le> length argv"
    and f1: "isfile env (video1_of argv)" and f2: "isfile env (video2_of argv)"
    and vs: "VideoSize env (video1_of argv) = Inr (vw, vh)"
    and g: "compute_geometry (fst (display_size env)) vw vh = Inr g"
    and evs: "evs = [Ffprobe (video1_of argv)]"
    and s: "s = \<lparr>title1 = ''1: '' @ video1_of argv, title2 = ''2: '' @ video2_of argv,
               cmd1 = make_cmd1 (''1: '' @ video1_of argv) (video1_of argv) g,
               cmd2 = make_cmd2 (''2: '' @ video2_of argv) (video2_of argv)
                        (interpret_args argv) g\<rparr>"
    by (rule prepare_InrE)
  have v1: "video1_of argv = argv ! 1" by (simp add: video1_of_def)
  have v2: "video2_of argv = argv ! 1" using assms(1) by (simp add: video2_of_def video1_of_def)
  note T = take3_videos [OF len]
  have "prepare env (take 3 argv)
          = Inr ([Ffprobe (video1_of (take 3 argv))],
                 \<lparr>title1 = ''1: '' @ video1_of (take 3 argv),
                  title2 = ''2: '' @ video2_of (take 3 argv),
                  cmd1 = make_cmd1 (''1: '' @ video1_of (take 3 argv)) (video1_of (take 3 argv)) g,
                  cmd2 = make_cmd2 (''2: '' @ video2_of (take 3 argv)) (video2_of (take 3 argv))
                           (interpret_args (take 3 argv)) g\<rparr>)"
    using len f1 f2 vs g by (intro prepare_ready) (simp_all add: T)
  then have plain: "\<exists>s0. prepare env (take 3 argv) = Inr (evs, s0) \<and> cmd1 s0 = cmd1 s"
    by (simp add: T evs s)
  note L = geometry_left_top [OF g]
  show ?thesis
    apply (rule exI [of _ "width g"], rule exI [of _ "height g"], rule exI [of _ "x2 g"])
    using plain by (simp add: s v1 v2 make_cmd1_def make_cmd2_def L)
qed

theorem same_video_both_windows_witness:
  \<open>\<exists>evs s w h x.
      prepare demo_env demo_argv = Inr (evs, s)
    \<and> cmd1 s = ''ffplay -v 0 -window_title "1: video1.mp4" -i "video1.mp4"''
               @ size_and_position w h ''10'' ''35''
    \<and> cmd2 s = ''ffplay -v 0 -window_title "2: video1.mp4" -i "video1.mp4" -vf eq=gamma=.9''
               @ size_and_position w h x ''35''
    \<and> (\<exists>s0. prepare demo_env (take 3 demo_argv) = Inr (evs, s0) \<and> cmd1 s0 = cmd1 s)\<close>
proof -
  have s: "demo_argv ! 2 = ''-same''" "demo_argv ! Suc 0 = ''video1.mp4''"
    by (simp_all add: demo_argv_def)
  have a: "interpret_args demo_argv = ''-vf eq=gamma=.9''"
    by (simp add: demo_argv_def interpret_args_gamma strip_char_def)
  from same_video_both_windows [OF s(1) demo_prepare] demo_prepare show ?thesis
    by (simp add: s a)
qed

subsection \<open>Usage and missing files\<close>

lemma main_usage: "length argv < 3 \<Longrightarrow> main env argv = Some ([Print usage_text], Exited 0)"
  by (simp add: main_def prepare_def)

lemma main_missing1:
  "3 \<le> length argv \<Longrightarrow> \<not> isfile env (video1_of argv) \<Longrightarrow>
   main env argv = Some ([Print (''Could not find: '' @ video1_of argv)], Exited 0)"
  by (simp add: main_def prepare_def Let_def)

lemma main_missing2:
  "3 \<le> length argv \<Longrightarrow> isfile env (video1_of argv) \<Longrightarrow> \<not> isfile env (video2_of argv) \<Longrightarrow>
   main env argv = Some ([Print (''Could not find: '' @ video2_of argv)], Exited 0)"
  by (simp add: main_def prepare_def Let_def)

text \<open>
  C2, as the script has it. With fewer than two arguments the run prints the usage text,
  and with a video that is not a file it prints \<^verbatim>\<open>Could not find:\<close> and the path; in
  both cases that is all it does, and it ends through \<^verbatim>\<open>sys.exit()\<close>, with exit
  status 0.
\<close>

theorem diagnostics_exit_zero:
  "(length argv < 3 \<longrightarrow> main env argv = Some ([Print usage_text], Exited 0))
   \<and> (3 \<le> length argv \<and> \<not> isfile env (video1_of argv) \<longrightarrow>
        main env argv = Some ([Print (''Could not find: '' @ video1_of argv)], Exited 0))
   \<and> (3 \<le> length argv \<and> isfile env (video1_of argv) \<and> \<not> isfile env (video2_of argv) \<longrightarrow>
        main env argv = Some ([Print (''Could not find: '' @ video2_of argv)], Exited 0))"
  using main_usage main_missing1 main_missing2 by blast

theorem diagnostics_exit_zero_witness:
  "main demo_env [''abhi.py''] = Some ([Print usage_text], Exited 0)
   \<and> main demo_env [''abhi.py'', ''gone.mp4'', ''-same'']
       = Some ([Print ''Could not find: gone.mp4''], Exited 0)
   \<and> main demo_env [''abhi.py'', ''video1.mp4'', ''gone.mp4'']
       = Some ([Print ''Could not find: gone.mp4''], Exited 0)"
  using diagnostics_exit_zero [of "[''abhi.py'']" demo_env]
    diagnostics_exit_zero [of "[''abhi.py'', ''gone.mp4'', ''-same'']" demo_env]
    diagnostics_exit_zero [of "[''abhi.py'', ''video1.mp4'', ''gone.mp4'']" demo_env]
  by (simp add: demo_env_def video1_of_def video2_of_def)

text \<open>
  C2, as the claim states it: the exit status would not be zero. With one argument, and
  with a second video that is not a file, the run ends with exit status 0.
\<close>

theorem exit_status_nonzero_counterexample:
  "main demo_env [''abhi.py'', ''video1.mp4''] = Some ([Print usage_text], Exited 0)
   \<and> main demo_env [''abhi.py'', ''video1.mp4'', ''video2.mp4'']
       = Some ([Print ''Could not find: video2.mp4''], Exited 0)"
  by (simp add: main_def prepare_def Let_def demo_env_def video1_of_def video2_of_def)

text \<open>
  C8. When one of the two videos is not a file, the run ends, and it has neither handed a
  command to \<^verbatim>\<open>aut.Run\<close> nor run \<^verbatim>\<open>ffprobe\<close>.
\<close>

theorem missing_file_no_launch:
  assumes "3 \<le> length argv"
    and "\<not> isfile env (video1_of argv) \<or> \<not> isfile env (video2_of argv)"
  shows "\<exists>evs f. main env argv = Some (evs, f)
           \<and> (\<forall>c. Spawn c \<notin> set evs) \<and> (\<forall>v. Ffprobe v \<notin> set evs)"
proof (cases "isfile env (video1_of argv)")
  case False
  with assms(1) show ?thesis by (simp add: main_missing1)
next
  case True
  with assms show ?thesis by (simp add: main_missing2)
qed

theorem missing_file_no_launch_witness:
  "\<exists>evs f. main demo_env [''abhi.py'', ''video1.mp4'', ''gone.mp4''] = Some (evs, f)
           \<and> (\<forall>c. Spawn c \<notin> set evs) \<and> (\<forall>v. Ffprobe v \<notin> set evs)"
  using missing_file_no_launch [of "[''abhi.py'', ''video1.mp4'', ''gone.mp4'']" demo_env]
  by (simp add: demo_env_def video1_of_def video2_of_def)

subsection \<open>The size of the windows\<close>

lemma exact_height_div:
  assumes "0 < vw" and "0 < vh"
  shows "exact_height w vw vh = (w * vh) div vw"
proof -
  have "(of_int w :: rat) / (of_int vw / of_int vh) = of_int (w * vh) / of_int vw"
    using assms by simp
  then show ?thesis
    unfolding exact_height_def by (simp only: floor_divide_of_int_eq)
qed

lemma geometry_zero_width_video: "compute_geometry 1920 0 5 = Inl ZeroDivisionError"
proof -
  have "int_truediv 0 5 = Inr 0" by (simp add: int_truediv_def round_double_def)
  moreover have "int_truediv (1920 - 20) 2 = Inr 950"
    using int_truediv_half [of 1900] by simp
  moreover have "trunc 950 = 950" by (simp add: trunc_def)
  moreover have "float_of_int 950 = Inr 950"
    using float_of_int_exact [of 950] by simp
  moreover have "float_truediv 950 0 = Inl ZeroDivisionError" by (simp add: float_truediv_def)
  ultimately show ?thesis by (simp add: compute_geometry_def)
qed

text \<open>
  C4, as the script has it. Let the display be at least 20 and less than \<open>2 ^ 31\<close> wide
  and the frame of the first video at least 1 and less than \<open>2 ^ 20\<close> in width and in
  height. Then the script gets to the command lines, both carry the same width and height,
  the width is \<open>(dw - 20) div 2\<close>, and the height is the floor of the exact quotient
  \<open>width / (vw / vh)\<close> or one less; one less can only happen when the exact quotient is a
  whole number, since the script divides twice in double precision and each division
  rounds.
\<close>

theorem window_size_two_roundings:
  assumes "3 \<le> length argv"
    and "isfile env (video1_of argv)" and "isfile env (video2_of argv)"
    and "display_size env = (dw, dh)" and "VideoSize env (video1_of argv) = Inr (vw, vh)"
    and "20 \<le> dw" and "dw < 2 ^ 31"
    and "0 < vw" and "vw < 2 ^ 20" and "0 < vh" and "vh < 2 ^ 20"
  shows \<open>\<exists>evs s h.
      prepare env argv = Inr (evs, s)
    \<and> cmd1 s = ''ffplay -v 0 -window_title "1: '' @ video1_of argv @ ''" -i "'' @ video1_of argv @ ''"''
               @ size_and_position ((dw - 20) div 2) h ''10'' ''35''
    \<and> cmd2 s = ''ffplay -v 0 -window_title "2: '' @ video2_of argv @ ''" -i "'' @ video2_of argv @ ''" ''
               @ interpret_args argv
               @ size_and_position ((dw - 20) div 2) h (str_int (dw div 2 + 5)) ''35''
    \<and> (h = exact_height ((dw - 20) div 2) vw vh \<or> h = exact_height ((dw - 20) div 2) vw vh - 1)
    \<and> (\<not> vw dvd (dw - 20) div 2 * vh \<longrightarrow> h = exact_height ((dw - 20) div 2) vw vh)\<close>
proof -
  from geometry_bounded [OF assms(6-11)] obtain h where
    g: "compute_geometry dw vw vh
          = Inr \<lparr>width = (dw - 20) div 2, height = h, x1 = ''10'', y1 = ''35'',
                 x2 = str_int (dw div 2 + 5), y2 = ''35''\<rparr>"
    and h1: "h = ((dw - 20) div 2 * vh) div vw \<or> h = ((dw - 20) div 2 * vh) div vw - 1"
    and h2: "\<not> vw dvd (dw - 20) div 2 * vh \<longrightarrow> h = ((dw - 20) div 2 * vh) div vw"
    by blast
  from g assms(4) have g': "compute_geometry (fst (display_size env)) vw vh
          = Inr \<lparr>width = (dw - 20) div 2, height = h, x1 = ''10'', y1 = ''35'',
                 x2 = str_int (dw div 2 + 5), y2 = ''35''\<rparr>" by simp
  define s where "s = \<lparr>title1 = ''1: '' @ video1_of argv, title2 = ''2: '' @ video2_of argv,
      cmd1 = make_cmd1 (''1: '' @ video1_of argv) (video1_of argv)
               \<lparr>width = (dw - 20) div 2, height = h, x1 = ''10'', y1 = ''35'',
                x2 = str_int (dw div 2 + 5), y2 = ''35''\<rparr>,
      cmd2 = make_cmd2 (''2: '' @ video2_of argv) (video2_of argv) (interpret_args argv)
               \<lparr>width = (dw - 20) div 2, height = h, x1 = ''10'', y1 = ''35'',
                x2 = str_int (dw div 2 + 5), y2 = ''35''\<rparr>\<rparr>"
  have P: "prepare env argv = Inr ([Ffprobe (video1_of argv)], s)"
    unfolding s_def by (rule prepare_ready [OF assms(1-3) assms(5) g'])
  have c1: \<open>cmd1 s = ''ffplay -v 0 -window_title "1: '' @ video1_of argv @ ''" -i "'' @ video1_of argv @ ''"''
               @ size_and_position ((dw - 20) div 2) h ''10'' ''35''\<close>
    by (simp add: s_def make_cmd1_def)
  have c2: \<open>cmd2 s = ''ffplay -v 0 -window_title "2: '' @ video2_of argv @ ''" -i "'' @ video2_of argv @ ''" ''
               @ interpret_args argv
               @ size_and_position ((dw - 20) div 2) h (str_int (dw div 2 + 5)) ''35''\<close>
    by (simp add: s_def make_cmd2_def)
  note E = exact_height_div [OF assms(8) assms(10)]
  from h1 h2 have "h = exact_height ((dw - 20) div 2) vw vh \<or> h = exact_height ((dw - 20) div 2) vw vh - 1"
    and "\<not> vw dvd (dw - 20) div 2 * vh \<longrightarrow> h = exact_height ((dw - 20) div 2) vw vh"
    by (simp_all only: E)
  with P c1 c2 show ?thesis by blast
qed

theorem window_size_two_roundings_witness:
  \<open>\<exists>evs s.
      prepare demo_env demo_argv = Inr (evs, s)
    \<and> cmd1 s = ''ffplay -v 0 -window_title "1: video1.mp4" -i "video1.mp4"''
               @ size_and_position 950 534 ''10'' ''35''
    \<and> cmd2 s = ''ffplay -v 0 -window_title "2: video1.mp4" -i "video1.mp4" -vf eq=gamma=.9''
               @ size_and_position 950 534 ''965'' ''35''\<close>
proof -
  have v: "video1_of demo_argv = ''video1.mp4''" "video2_of demo_argv = ''video1.mp4''"
    by (simp_all add: video1_of_def video2_of_def demo_argv_def)
  have a: "interpret_args demo_argv = ''-vf eq=gamma=.9''"
    by (simp add: demo_argv_def interpret_args_gamma strip_char_def)
  have len: "3 \<le> length demo_argv" by (simp add: demo_argv_def)
  have f: "isfile demo_env (video1_of demo_argv)" "isfile demo_env (video2_of demo_argv)"
    by (simp_all add: v) (simp_all add: demo_env_def)
  have d: "display_size demo_env = (1920, 1080)" by (simp add: demo_env_def)
  have vs: "VideoSize demo_env (video1_of demo_argv) = Inr (1280, 720)"
    by (simp add: v demo_VideoSize)
  have e: "exact_height 950 1280 720 = 534" by (simp add: exact_height_div)
  from window_size_two_roundings [OF len f d vs] show ?thesis
    by (simp add: v a e str_int_965)
qed

text \<open>
  C4, as the claim states it: for every display and every frame size with a height above
  0 the height would be the floor of \<open>width / (vw / vh)\<close>. On a display 90 wide, with a
  frame of 7 by 3, the width is 35 and the floor of the exact quotient is 15, but the
  script computes 14: \<^verbatim>\<open>7 / 3\<close> rounds up, \<^verbatim>\<open>35 / (7 / 3)\<close> falls just below 15. With
  a frame of 0 by 5 the script computes no height at all: it raises
  \<^verbatim>\<open>ZeroDivisionError\<close>.
\<close>

theorem window_height_exact_floor_counterexample:
  "compute_geometry 90 7 3
     = Inr \<lparr>width = 35, height = 14, x1 = ''10'', y1 = ''35'', x2 = ''50'', y2 = ''35''\<rparr>
   \<and> exact_height 35 7 3 = 15
   \<and> compute_geometry 1920 0 5 = Inl ZeroDivisionError"
  by (simp add: geometry_90_7_3 geometry_zero_width_video exact_height_div)

subsection \<open>Waiting for a window\<close>

lemma polls_Suc: "polls title (Suc n) = [WinActive title, Sleep 100] @ polls title n"
  by (simp add: polls_def)

lemma polls_Suc_right: "polls title (Suc n) = polls title n @ [WinActive title, Sleep 100]"
  by (induction n) (simp_all add: polls_def)

lemma WaitFor_loop_expires:
  "0 < n \<Longrightarrow> (\<forall>j<n. \<not> win_active env title (k + j)) \<Longrightarrow>
   WaitFor_loop env title (int n) k evs
     = Some (evs @ polls title n @ [Print ''expired''], Expired)"
proof (induction n arbitrary: k evs)
  case 0
  then show ?case by simp
next
  case (Suc n)
  from Suc.prems(2) have now: "\<not> win_active env title k"
    by (metis add.right_neutral zero_less_Suc)
  show ?case
  proof (cases "n = 0")
    case True
    with now show ?thesis
      by (subst WaitFor_loop.simps) (simp add: polls_def)
  next
    case False
    from Suc.prems(2) have later: "\<forall>j<n. \<not> win_active env title (Suc k + j)"
      by (metis Suc_less_eq add_Suc_shift)
    from False have "WaitFor_loop env title (int n) (Suc k) (evs @ [WinActive title, Sleep 100])
        = Some ((evs @ [WinActive title, Sleep 100]) @ polls title n @ [Print ''expired''], Expired)"
      using Suc.IH [OF _ later] by simp
    with now False show ?thesis
      by (subst WaitFor_loop.simps) (simp add: polls_Suc)
  qed
qed

lemma WaitFor_loop_activates:
  "m < n \<Longrightarrow> (\<forall>j<m. \<not> win_active env title (k + j)) \<Longrightarrow> win_active env title (k + m) \<Longrightarrow>
   WaitFor_loop env title (int n) k evs
     = Some (evs @ polls title m @ [WinActive title], Active)"
proof (induction m arbitrary: n k evs)
  case 0
  then show ?case by (subst WaitFor_loop.simps) (simp add: polls_def)
next
  case (Suc m)
  from Suc.prems(2) have now: "\<not> win_active env title k"
    by (metis add.right_neutral zero_less_Suc)
  from Suc.prems(2) have later: "\<forall>j<m. \<not> win_active env title (Suc k + j)"
    by (metis Suc_less_eq add_Suc_shift)
  from Suc.prems(1) obtain n' where n: "n = Suc n'" and mn: "m < n'"
    by (cases n) auto
  have "WaitFor_loop env title (int n') (Suc k) (evs @ [WinActive title, Sleep 100])
        = Some ((evs @ [WinActive title, Sleep 100]) @ polls title m @ [WinActive title], Active)"
    using Suc.IH [OF mn later] Suc.prems(3) by simp
  with now n mn show ?case
    by (subst WaitFor_loop.simps) (simp add: polls_Suc)
qed

lemma WaitFor_never_active:
  "\<forall>k. \<not> win_active env title k \<Longrightarrow>
   WaitFor env title 5 = Some (polls title 50 @ [Print ''expired''], Expired)"
  using WaitFor_loop_expires [of 50 env title 0 "[]"] by (simp add: WaitFor_def)

lemma WaitFor_total: "\<exists>r. WaitFor env title 5 = Some r"
proof (cases "\<exists>m<50. win_active env title m")
  case True
  define m where "m = (LEAST m. win_active env title m)"
  from True obtain m0 where m0: "m0 < 50" "win_active env title m0" by blast
  have act: "win_active env title m" unfolding m_def using m0(2) by (rule LeastI)
  have le: "m \<le> m0" unfolding m_def using m0(2) by (rule Least_le)
  have before: "\<forall>j<m. \<not> win_active env title (0 + j)"
    unfolding m_def using not_less_Least by auto
  from le m0 have "m < 50" by simp
  from WaitFor_loop_activates [OF this before] act show ?thesis
    by (simp add: WaitFor_def)
next
  case False
  then have "\<forall>j<50. \<not> win_active env title (0 + j)" by simp
  from WaitFor_loop_expires [OF _ this, of "[]"] show ?thesis
    by (simp add: WaitFor_def)
qed


lemma WaitFor_activates:
  assumes "m < 50" and "\<forall>j<m. \<not> win_active env title j" and "win_active env title m"
  shows "WaitFor env title 5 = Some (polls title m @ [WinActive title], Active)"
  using WaitFor_loop_activates [of m 50 env title 0 "[]"] assms by (simp add: WaitFor_def)

text \<open>
  C5. If the window with the given title never becomes active, \<^verbatim>\<open>WaitFor(title, 5)\<close>
  asks 50 times, sleeps 100 milliseconds after each answer, prints \<^verbatim>\<open>expired\<close> and ends
  the run. This holds for the first window, and for the second window once the first has
  become active. The events of such a run are given in full: the run ends with exit
  status 0 and it never asks whether a window exists, which the final loop would do first.
\<close>

theorem readiness_timeout_ends_run:
  assumes "\<forall>k. \<not> win_active env title k"
  shows "WaitFor env title 5
           = Some (concat (replicate 50 [WinActive title, Sleep 100]) @ [Print ''expired''],
                   Expired)
    \<and> (prepare env argv = Inr (evs, s) \<and> title1 s = title \<and> aut_run env (cmd1 s) \<noteq> 0 \<longrightarrow>
         main env argv
           = Some (evs @ [Print (nl # cmd1 s), Spawn (cmd1 s)]
                   @ concat (replicate 50 [WinActive title, Sleep 100])
                   @ [Print ''expired''], Exited 0))
    \<and> (prepare env argv = Inr (evs, s) \<and> title2 s = title
          \<and> aut_run env (cmd1 s) \<noteq> 0 \<and> aut_run env (cmd2 s) \<noteq> 0
          \<and> m < 50 \<and> (\<forall>j<m. \<not> win_active env (title1 s) j) \<and> win_active env (title1 s) m \<longrightarrow>
         main env argv
           = Some (evs @ [Print (nl # cmd1 s), Spawn (cmd1 s)]
                   @ concat (replicate m [WinActive (title1 s), Sleep 100])
                   @ [WinActive (title1 s), Print (nl # cmd2 s), Spawn (cmd2 s)]
                   @ concat (replicate 50 [WinActive title, Sleep 100])
                   @ [Print ''expired''], Exited 0))"
proof (intro conjI impI)
  show w: "WaitFor env title 5
           = Some (concat (replicate 50 [WinActive title, Sleep 100]) @ [Print ''expired''],
                   Expired)"
    using WaitFor_never_active [OF assms] by (simp add: polls_def)
  {
    assume "prepare env argv = Inr (evs, s) \<and> title1 s = title \<and> aut_run env (cmd1 s) \<noteq> 0"
    then show "main env argv
           = Some (evs @ [Print (nl # cmd1 s), Spawn (cmd1 s)]
                   @ concat (replicate 50 [WinActive title, Sleep 100])
                   @ [Print ''expired''], Exited 0)"
      using w by (simp add: main_def launch_def Let_def)
  }
  {
    assume a: "prepare env argv = Inr (evs, s) \<and> title2 s = title
          \<and> aut_run env (cmd1 s) \<noteq> 0 \<and> aut_run env (cmd2 s) \<noteq> 0
          \<and> m < 50 \<and> (\<forall>j<m. \<not> win_active env (title1 s) j) \<and> win_active env (title1 s) m"
    then have "WaitFor env (title1 s) 5
        = Some (concat (replicate m [WinActive (title1 s), Sleep 100]) @ [WinActive (title1 s)], Active)"
      using WaitFor_activates [of m env "title1 s"] by (simp add: polls_def)
    with a w show "main env argv
           = Some (evs @ [Print (nl # cmd1 s), Spawn (cmd1 s)]
                   @ concat (replicate m [WinActive (title1 s), Sleep 100])
                   @ [WinActive (title1 s), Print (nl # cmd2 s), Spawn (cmd2 s)]
                   @ concat (replicate 50 [WinActive title, Sleep 100])
                   @ [Print ''expired''], Exited 0)"
      by (simp add: main_def launch_def Let_def)
  }
qed

theorem readiness_timeout_ends_run_witness:
  \<open>main (demo_env\<lparr>win_active := \<lambda>t k. False\<rparr>) demo_argv
     = Some ([Ffprobe ''video1.mp4'',
              Print (nl # ''ffplay -v 0 -window_title "1: video1.mp4" -i "video1.mp4" -x 950 -y 534 -left 10 -top 35''),
              Spawn ''ffplay -v 0 -window_title "1: video1.mp4" -i "video1.mp4" -x 950 -y 534 -left 10 -top 35'']
             @ concat (replicate 50 [WinActive ''1: video1.mp4'', Sleep 100])
             @ [Print ''expired''], Exited 0)
   \<and> main (demo_env\<lparr>win_active := \<lambda>t k. t = ''1: video1.mp4'' \<and> 3 \<le> k\<rparr>) demo_argv
     = Some ([Ffprobe ''video1.mp4'',
              Print (nl # ''ffplay -v 0 -window_title "1: video1.mp4" -i "video1.mp4" -x 950 -y 534 -left 10 -top 35''),
              Spawn ''ffplay -v 0 -window_title "1: video1.mp4" -i "video1.mp4" -x 950 -y 534 -left 10 -top 35'']
             @ concat (replicate 3 [WinActive ''1: video1.mp4'', Sleep 100])
             @ [WinActive ''1: video1.mp4'',
                Print (nl # ''ffplay -v 0 -window_title "2: video1.mp4" -i "video1.mp4" -vf eq=gamma=.9 -x 950 -y 534 -left 965 -top 35''),
                Spawn ''ffplay -v 0 -window_title "2: video1.mp4" -i "video1.mp4" -vf eq=gamma=.9 -x 950 -y 534 -left 965 -top 35'']
             @ concat (replicate 50 [WinActive ''2: video1.mp4'', Sleep 100])
             @ [Print ''expired''], Exited 0)\<close>
proof -
  define s where \<open>s = \<lparr>title1 = ''1: video1.mp4'', title2 = ''2: video1.mp4'',
     cmd1 = ''ffplay -v 0 -window_title "1: video1.mp4" -i "video1.mp4" -x 950 -y 534 -left 10 -top 35'',
     cmd2 = ''ffplay -v 0 -window_title "2: video1.mp4" -i "video1.mp4" -vf eq=gamma=.9 -x 950 -y 534 -left 965 -top 35''\<rparr>\<close>
  have p: "prepare (demo_env\<lparr>win_active := f\<rparr>) demo_argv = Inr ([Ffprobe ''video1.mp4''], s)" for f
    by (simp only: prepare_ignores_windows demo_prepare s_def)
  have r: "aut_run (demo_env\<lparr>win_active := f\<rparr>) c \<noteq> 0" for f c
    by (simp add: demo_env_def)
  have first: "main (demo_env\<lparr>win_active := \<lambda>t k. False\<rparr>) demo_argv
     = Some ([Ffprobe ''video1.mp4''] @ [Print (nl # cmd1 s), Spawn (cmd1 s)]
             @ concat (replicate 50 [WinActive ''1: video1.mp4'', Sleep 100])
             @ [Print ''expired''], Exited 0)"
    using readiness_timeout_ends_run [where env = "demo_env\<lparr>win_active := \<lambda>t k. False\<rparr>"
        and title = "''1: video1.mp4''" and argv = demo_argv
        and evs = "[Ffprobe ''video1.mp4'']" and s = s] p r
    by (simp add: s_def)
  have second: "main (demo_env\<lparr>win_active := \<lambda>t k. t = ''1: video1.mp4'' \<and> 3 \<le> k\<rparr>) demo_argv
     = Some ([Ffprobe ''video1.mp4''] @ [Print (nl # cmd1 s), Spawn (cmd1 s)]
             @ concat (replicate 3 [WinActive (title1 s), Sleep 100])
             @ [WinActive (title1 s), Print (nl # cmd2 s), Spawn (cmd2 s)]
             @ concat (replicate 50 [WinActive ''2: video1.mp4'', Sleep 100])
             @ [Print ''expired''], Exited 0)"
    using readiness_timeout_ends_run
        [where env = "demo_env\<lparr>win_active := \<lambda>t k. t = ''1: video1.mp4'' \<and> 3 \<le> k\<rparr>"
          and title = "''2: video1.mp4''" and argv = demo_argv
          and evs = "[Ffprobe ''video1.mp4'']" and s = s and m = 3] p r
    by (simp add: s_def)
  from first second show ?thesis by (simp add: s_def)
qed

subsection \<open>Reading the frame size\<close>

lemma contains_iff: "contains pat s \<longleftrightarrow> (\<exists>a b. s = a @ pat @ b)"
proof (induction s)
  case Nil
  then show ?case by auto
next
  case (Cons c cs)
  show ?case
  proof
    assume "contains pat (c # cs)"
    then consider "take (length pat) (c # cs) = pat" | "contains pat cs" by auto
    then show "\<exists>a b. c # cs = a @ pat @ b"
    proof cases
      case 1
      then have "c # cs = [] @ pat @ drop (length pat) (c # cs)"
        by (metis append_Nil append_take_drop_id)
      then show ?thesis by blast
    next
      case 2
      with Cons.IH obtain a b where "cs = a @ pat @ b" by blast
      then have "c # cs = (c # a) @ pat @ b" by simp
      then show ?thesis by blast
    qed
  next
    assume "\<exists>a b. c # cs = a @ pat @ b"
    then obtain a b where ab: "c # cs = a @ pat @ b" by blast
    show "contains pat (c # cs)"
    proof (cases a)
      case Nil
      with ab have "take (length pat) (c # cs) = pat" by simp
      then show ?thesis by simp
    next
      case (Cons d a')
      with ab have "cs = a' @ pat @ b" by simp
      with Cons.IH have "contains pat cs" by blast
      then show ?thesis by simp
    qed
  qed
qed

lemma has_video_marker_contains: "has_video_marker line \<longleftrightarrow> contains ''Video:'' line"
  by (simp add: has_video_marker_def contains_iff)

lemma not_digit_x [simp]: "\<not> is_digit CHR ''x''" and not_digit_blank [simp]: "\<not> is_digit CHR '' ''"
  by (simp_all add: is_digit_def)

lemma match_at_SomeD:
  assumes "match_at s = Some n"
  shows "\<exists>w h b. s = '' '' @ w @ ''x'' @ h @ '' '' @ b \<and> w \<noteq> [] \<and> h \<noteq> []
           \<and> list_all is_digit w \<and> list_all is_digit h \<and> n = length w + length h + 3"
proof -
  from assms obtain r where s: "s = CHR '' '' # r" and w: "takeWhile is_digit r \<noteq> []"
    by (auto simp add: match_at_def split: list.splits if_splits)
  from assms s w obtain r2 where r: "dropWhile is_digit r = CHR ''x'' # r2"
    and h: "takeWhile is_digit r2 \<noteq> []"
    by (auto simp add: match_at_def split: list.splits if_splits)
  from assms s w r h obtain r3 where r2: "dropWhile is_digit r2 = CHR '' '' # r3"
    and n: "n = length (takeWhile is_digit r) + length (takeWhile is_digit r2) + 3"
    by (auto simp add: match_at_def split: list.splits if_splits)
  have "r = takeWhile is_digit r @ CHR ''x'' # r2"
    using r by (metis takeWhile_dropWhile_id)
  moreover have "r2 = takeWhile is_digit r2 @ CHR '' '' # r3"
    using r2 by (metis takeWhile_dropWhile_id)
  ultimately have "s = '' '' @ takeWhile is_digit r @ ''x'' @ takeWhile is_digit r2 @ '' '' @ r3"
    using s by simp
  moreover have "list_all is_digit (takeWhile is_digit r)" "list_all is_digit (takeWhile is_digit r2)"
    by (auto simp add: list_all_iff dest: set_takeWhileD)
  ultimately show ?thesis using w h n by blast
qed

lemma match_at_token:
  assumes "w \<noteq> []" and "h \<noteq> []" and "list_all is_digit w" and "list_all is_digit h"
  shows "match_at ('' '' @ w @ ''x'' @ h @ '' '' @ b) = Some (length w + length h + 3)"
proof -
  have tw: "takeWhile is_digit (w @ CHR ''x'' # h @ CHR '' '' # b) = w"
    using assms(3) by (simp add: list_all_iff takeWhile_append2)
  have dw: "dropWhile is_digit (w @ CHR ''x'' # h @ CHR '' '' # b) = CHR ''x'' # h @ CHR '' '' # b"
    using assms(3) by (simp add: list_all_iff dropWhile_append2)
  have th: "takeWhile is_digit (h @ CHR '' '' # b) = h"
    using assms(4) by (simp add: list_all_iff takeWhile_append2)
  have dh: "dropWhile is_digit (h @ CHR '' '' # b) = CHR '' '' # b"
    using assms(4) by (simp add: list_all_iff dropWhile_append2)
  show ?thesis using assms(1,2) by (simp add: match_at_def tw dw th dh)
qed

lemma search_from_None_iff:
  "search_from i s = None \<longleftrightarrow> (\<forall>a b. s = a @ b \<longrightarrow> match_at b = None)"
proof (induction s arbitrary: i)
  case Nil
  then show ?case by (simp add: match_at_def)
next
  case (Cons c cs)
  show ?case
  proof
    assume none: "search_from i (c # cs) = None"
    then have here: "match_at (c # cs) = None" and rest: "search_from (Suc i) cs = None"
      by (simp_all split: option.splits)
    show "\<forall>a b. c # cs = a @ b \<longrightarrow> match_at b = None"
    proof (intro allI impI)
      fix a b assume ab: "c # cs = a @ b"
      show "match_at b = None"
      proof (cases a)
        case Nil
        with ab here show ?thesis by simp
      next
        case (Cons d a')
        with ab have "cs = a' @ b" by simp
        with rest Cons.IH show ?thesis by blast
      qed
    qed
  next
    assume all: "\<forall>a b. c # cs = a @ b \<longrightarrow> match_at b = None"
    then have here: "match_at (c # cs) = None" by (metis append_Nil)
    have "\<forall>a b. cs = a @ b \<longrightarrow> match_at b = None"
      using all by (metis append_Cons)
    with Cons.IH have "search_from (Suc i) cs = None" by blast
    with here show "search_from i (c # cs) = None" by simp
  qed
qed

lemma re_search_None_iff: "re_search line = None \<longleftrightarrow> \<not> has_size_token line"
proof
  assume none: "re_search line = None"
  show "\<not> has_size_token line"
  proof
    assume "has_size_token line"
    then obtain a w h b where line: "line = a @ '' '' @ w @ ''x'' @ h @ '' '' @ b"
      and wh: "w \<noteq> []" "h \<noteq> []" "list_all is_digit w" "list_all is_digit h"
      unfolding has_size_token_def by blast
    from none line have "match_at ('' '' @ w @ ''x'' @ h @ '' '' @ b) = None"
      unfolding re_search_def search_from_None_iff by blast
    with match_at_token [OF wh] show False by simp
  qed
next
  assume no: "\<not> has_size_token line"
  show "re_search line = None"
    unfolding re_search_def search_from_None_iff
  proof (intro allI impI)
    fix a b assume ab: "line = a @ b"
    show "match_at b = None"
    proof (cases "match_at b")
      case None
      then show ?thesis .
    next
      case (Some n)
      from match_at_SomeD [OF this] ab have "has_size_token line"
        unfolding has_size_token_def by blast
      with no show ?thesis by simp
    qed
  qed
qed

lemma scan_lines_no_token:
  assumes "\<forall>line \<in> set lines. has_video_marker line \<longrightarrow> \<not> has_size_token line"
  shows "scan_lines lines = Inr (0, 0)"
  using assms
proof (induction lines)
  case Nil
  then show ?case by simp
next
  case (Cons line rest)
  then have "contains ''Video:'' line \<longrightarrow> re_search line = None"
    by (simp add: has_video_marker_contains re_search_None_iff)
  with Cons show ?case by auto
qed

lemma search_from_SomeD:
  assumes "search_from i s = Some (st, en)"
  shows "\<exists>a b n. s = a @ b \<and> st = i + length a \<and> en = st + n \<and> match_at b = Some n"
  using assms
proof (induction s arbitrary: i)
  case Nil
  then show ?case by simp
next
  case (Cons c cs)
  show ?case
  proof (cases "match_at (c # cs)")
    case (Some n)
    with Cons.prems have "st = i" "en = i + n" by simp_all
    with Some have "c # cs = [] @ (c # cs) \<and> st = i + length ([] :: string) \<and> en = st + n
        \<and> match_at (c # cs) = Some n" by simp
    then show ?thesis by blast
  next
    case None
    with Cons.prems have "search_from (Suc i) cs = Some (st, en)" by simp
    from Cons.IH [OF this] obtain a b n where
      "cs = a @ b" "st = Suc i + length a" "en = st + n" "match_at b = Some n" by blast
    then have "c # cs = (c # a) @ b \<and> st = i + length (c # a) \<and> en = st + n
        \<and> match_at b = Some n" by simp
    then show ?thesis by blast
  qed
qed

lemma split_on_absent: "sep \<notin> set s \<Longrightarrow> split_on sep s = [s]"
  by (induction s) auto

lemma split_on_first: "sep \<notin> set w \<Longrightarrow> split_on sep (w @ sep # rest) = w # split_on sep rest"
  by (induction w) auto

lemma digits_no_x: "list_all is_digit w \<Longrightarrow> CHR ''x'' \<notin> set w"
  by (auto simp add: list_all_iff)

lemma py_int_digits:
  assumes "w \<noteq> []" and "list_all is_digit w"
  shows "\<exists>n. py_int w = Inr n \<and> 0 \<le> n"
  using assms by (simp add: py_int_def)

lemma re_search_slice:
  assumes "re_search line = Some (st, en)"
  shows "\<exists>w h. slice (1 + st) (en - 1) line = w @ ''x'' @ h \<and> w \<noteq> [] \<and> h \<noteq> []
           \<and> list_all is_digit w \<and> list_all is_digit h"
proof -
  from assms obtain a b n where line: "line = a @ b" and st: "st = length a"
    and en: "en = st + n" and m: "match_at b = Some n"
    unfolding re_search_def by (auto dest: search_from_SomeD)
  from match_at_SomeD [OF m] obtain w h c where
    b: "b = '' '' @ w @ ''x'' @ h @ '' '' @ c" and wh: "w \<noteq> []" "h \<noteq> []"
    "list_all is_digit w" "list_all is_digit h" and n: "n = length w + length h + 3"
    by blast
  have "slice (1 + st) (en - 1) line = w @ ''x'' @ h"
    by (simp add: slice_def line st en n b)
  with wh show ?thesis by blast
qed

lemma scan_lines_total: "\<exists>w h. scan_lines lines = Inr (w, h) \<and> 0 \<le> w \<and> 0 \<le> h"
proof (induction lines)
  case Nil
  then show ?case by simp
next
  case (Cons line rest)
  show ?case
  proof (cases "re_search line")
    case None
    with Cons show ?thesis by auto
  next
    case (Some p)
    then obtain st en where r: "re_search line = Some (st, en)" by (cases p) simp
    from re_search_slice [OF r] obtain w h where
      sl: "slice (1 + st) (en - 1) line = w @ ''x'' @ h" and wh: "w \<noteq> []" "h \<noteq> []"
      "list_all is_digit w" "list_all is_digit h" by blast
    have sp: "split_on CHR ''x'' (w @ ''x'' @ h) = [w, h]"
      using wh by (simp add: split_on_first split_on_absent digits_no_x)
    from py_int_digits [OF wh(1) wh(3)] obtain wi where wi: "py_int w = Inr wi" "0 \<le> wi" by blast
    from py_int_digits [OF wh(2) wh(4)] obtain hi where hi: "py_int h = Inr hi" "0 \<le> hi" by blast
    show ?thesis
    proof (cases "contains ''Video:'' line")
      case True
      with r sl sp wi hi show ?thesis by simp
    next
      case False
      with Cons show ?thesis by simp
    qed
  qed
qed

lemma scan_lines_no_ValueError: "scan_lines lines \<noteq> Inl e"
  using scan_lines_total [of lines] by auto


lemma VideoSize_no_token:
  assumes "\<forall>line \<in> set (split_on nl (ffprobe_stderr env file)).
             has_video_marker line \<longrightarrow> \<not> has_size_token line"
  shows "VideoSize env file = Inr (0, 0)"
  unfolding VideoSize_def using assms by (rule scan_lines_no_token)

lemma geometry_zero_height: "compute_geometry dw vw 0 = Inl ZeroDivisionError"
  by (simp add: compute_geometry_def int_truediv_def)

text \<open>
  C3. If no line of the diagnostic text that carries \<^verbatim>\<open>Video:\<close> holds a frame size
  token, \<^verbatim>\<open>VideoSize\<close> returns \<open>(0, 0)\<close>; and a run that gets as far as asking for the
  frame size then ends in the division \<^verbatim>\<open>vw / vh\<close> with \<^verbatim>\<open>ZeroDivisionError\<close>, after
  \<^verbatim>\<open>ffprobe\<close> and before any command line is built. The sample text of the witness is
  what \<^verbatim>\<open>ffprobe\<close> writes when the frame size is followed by a comma.
\<close>

theorem no_size_token_zero_division:
  assumes "\<forall>line \<in> set (split_on nl (ffprobe_stderr env file)).
             has_video_marker line \<longrightarrow> \<not> has_size_token line"
  shows "VideoSize env file = Inr (0, 0)
    \<and> (3 \<le> length argv \<and> video1_of argv = file
          \<and> isfile env (video1_of argv) \<and> isfile env (video2_of argv) \<longrightarrow>
        main env argv = Some ([Ffprobe file], Raised ZeroDivisionError))"
proof (intro conjI impI)
  show v: "VideoSize env file = Inr (0, 0)"
    using assms by (rule VideoSize_no_token)
  assume a: "3 \<le> length argv \<and> video1_of argv = file
          \<and> isfile env (video1_of argv) \<and> isfile env (video2_of argv)"
  then have len: "\<not> length argv < 3" and eq: "video1_of argv = file"
    and f1: "isfile env file" and f2: "isfile env (video2_of argv)" by auto
  show "main env argv = Some ([Ffprobe file], Raised ZeroDivisionError)"
    by (simp add: main_def prepare_def Let_def len eq f1 f2 v geometry_zero_height)
qed

theorem no_size_token_zero_division_witness:
  "VideoSize
     (demo_env\<lparr>ffprobe_stderr := \<lambda>f. ''Input #0, mov, from video1.mp4:'' @ [nl]
        @ ''  Stream #0:0: Video: h264, yuv420p, 1280x720, 25 fps''\<rparr>)
     ''video1.mp4'' = Inr (0, 0)
   \<and> main
     (demo_env\<lparr>ffprobe_stderr := \<lambda>f. ''Input #0, mov, from video1.mp4:'' @ [nl]
        @ ''  Stream #0:0: Video: h264, yuv420p, 1280x720, 25 fps''\<rparr>)
     demo_argv = Some ([Ffprobe ''video1.mp4''], Raised ZeroDivisionError)"
proof -
  define out where "out = ''Input #0, mov, from video1.mp4:'' @ [nl]
        @ ''  Stream #0:0: Video: h264, yuv420p, 1280x720, 25 fps''"
  define env where "env = demo_env\<lparr>ffprobe_stderr := \<lambda>f. out\<rparr>"
  have lines: "split_on nl out
      = [''Input #0, mov, from video1.mp4:'',
         ''  Stream #0:0: Video: h264, yuv420p, 1280x720, 25 fps'']"
    by (simp add: out_def nl_def)
  have 1: "\<not> contains ''Video:'' ''Input #0, mov, from video1.mp4:''"
    by simp
  have 2: "re_search ''  Stream #0:0: Video: h264, yuv420p, 1280x720, 25 fps'' = None"
    by (simp add: re_search_def match_at_def is_digit_def)
  have hyp: "\<forall>line \<in> set (split_on nl (ffprobe_stderr env ''video1.mp4'')).
             has_video_marker line \<longrightarrow> \<not> has_size_token line"
    using 1 2 by (simp add: env_def lines has_video_marker_contains re_search_None_iff)
  have v: "video1_of demo_argv = ''video1.mp4''" "video2_of demo_argv = ''video1.mp4''"
    by (simp_all add: video1_of_def video2_of_def demo_argv_def)
  have f: "isfile env ''video1.mp4''" by (simp add: env_def demo_env_def)
  have len: "3 \<le> length demo_argv" by (simp add: demo_argv_def)
  from no_size_token_zero_division [OF hyp, of demo_argv] v f len
  show ?thesis by (simp add: env_def out_def)
qed

end
